theory Spec2Isabelle
  imports Complex_Main
begin

section \<open>Strings of Script.js\<close>

text \<open>
  A JavaScript string is a sequence of UTF-16 code units; a code unit is modelled by its
  number. The literals of Script.js are ASCII and are written through \<open>str\<close>.
\<close>

type_synonym jsstring = "nat list"

definition str :: "string \<Rightarrow> jsstring" where
  "str s = map of_char s"

text \<open>
  The character classes of the five patterns. \<open>\s\<close> is WhiteSpace together with
  LineTerminator: TAB, LF, VT, FF, CR, SP, NBSP, U+1680, U+2000 to U+200A, U+2028, U+2029,
  U+202F, U+205F, U+3000 and U+FEFF. \<open>String.prototype.trim\<close> strips the same set.
\<close>

definition isWhiteSpace :: "nat \<Rightarrow> bool" where
  "isWhiteSpace c \<longleftrightarrow>
     c = 9 \<or> c = 10 \<or> c = 11 \<or> c = 12 \<or> c = 13 \<or> c = 32 \<or> c = 160 \<or> c = 5760 \<or>
     (8192 \<le> c \<and> c \<le> 8202) \<or> c = 8232 \<or> c = 8233 \<or> c = 8239 \<or> c = 8287 \<or>
     c = 12288 \<or> c = 65279"

definition isDigit :: "nat \<Rightarrow> bool" where
  "isDigit c \<longleftrightarrow> 48 \<le> c \<and> c \<le> 57"

definition isWordChar :: "nat \<Rightarrow> bool" where
  "isWordChar c \<longleftrightarrow> (65 \<le> c \<and> c \<le> 90) \<or> (97 \<le> c \<and> c \<le> 122) \<or> isDigit c \<or> c = 95"

text \<open>
  Canonicalize of the \<open>i\<close> flag (without \<open>u\<close>): the upper-case mapping, except that
  a code unit of 128 or more is never mapped below 128. On ASCII it is the function below.
  On code units from 128 the real mapping stays at 128 or above and never reaches a white
  space character, and the patterns of Script.js hold ASCII characters only; so taking the
  identity there leaves every comparison made by these patterns as it is.
\<close>

definition Canonicalize :: "nat \<Rightarrow> nat" where
  "Canonicalize c = (if 97 \<le> c \<and> c \<le> 122 then c - 32 else c)"

definition trim :: "jsstring \<Rightarrow> jsstring" where
  "trim s = rev (dropWhile isWhiteSpace (rev (dropWhile isWhiteSpace s)))"

section \<open>The regular expressions\<close>

text \<open>
  The fragment of the pattern language that Script.js uses: a single character or class,
  a quantified class (\<open>+\<close> is \<open>Repeat cl 1 True\<close>, \<open>*?\<close> is \<open>Repeat cl 0 False\<close>;
  every quantifier of the source is on a class and has no upper bound), sequence,
  alternation, a numbered capturing group and \<open>$\<close> (no \<open>m\<close> flag: end of input).
  All five patterns carry the \<open>i\<close> flag, so characters are compared through
  \<open>Canonicalize\<close>.
\<close>

datatype cclass = Lit nat | SpaceClass | WordClass | DigitClass | AnyClass

fun class_matches :: "cclass \<Rightarrow> nat \<Rightarrow> bool" where
  "class_matches (Lit a) c = (Canonicalize c = Canonicalize a)"
| "class_matches SpaceClass c = isWhiteSpace c"
| "class_matches WordClass c = isWordChar c"
| "class_matches DigitClass c = isDigit c"
| "class_matches AnyClass c = True"

datatype regex =
    Empty
  | Chars cclass
  | Repeat cclass nat bool
  | Seq regex regex
  | Alt regex regex
  | Group nat regex
  | EndOfInput

text \<open>
  The matcher follows the backtracking semantics of the language definition: a matcher
  takes the state (the input still to read, the captures so far) and a continuation, and
  returns the first successful result in priority order, or failure (\<open>None\<close>).
\<close>

type_synonym captures = "nat \<rightharpoonup> jsstring"
type_synonym mstate = "jsstring \<times> captures"

text \<open>
  RepeatMatcher for a one-character body: each iteration reads exactly one character, so
  the recursion is on the input. With \<open>min\<close> iterations still owed the body must match;
  afterwards a greedy quantifier tries one more iteration before the continuation, a lazy
  one tries the continuation first.
\<close>

fun repeat_matcher :: "(nat \<Rightarrow> bool) \<Rightarrow> nat \<Rightarrow> bool \<Rightarrow> jsstring \<Rightarrow> (jsstring \<Rightarrow> 'a option) \<Rightarrow> 'a option" where
  "repeat_matcher p m greedy [] c = (if m = 0 then c [] else None)"
| "repeat_matcher p m greedy (a # s) c =
     (if m \<noteq> 0 then (if p a then repeat_matcher p (m - 1) greedy s c else None)
      else if greedy then
        (case (if p a then repeat_matcher p 0 greedy s c else None) of
           Some z \<Rightarrow> Some z
         | None \<Rightarrow> c (a # s))
      else
        (case c (a # s) of
           Some z \<Rightarrow> Some z
         | None \<Rightarrow> (if p a then repeat_matcher p 0 greedy s c else None)))"

fun matcher :: "regex \<Rightarrow> mstate \<Rightarrow> (mstate \<Rightarrow> mstate option) \<Rightarrow> mstate option" where
  "matcher Empty x c = c x"
| "matcher (Chars cl) x c =
     (case fst x of
        [] \<Rightarrow> None
      | a # s \<Rightarrow> if class_matches cl a then c (s, snd x) else None)"
| "matcher (Repeat cl m greedy) x c =
     repeat_matcher (class_matches cl) m greedy (fst x) (\<lambda>s. c (s, snd x))"
| "matcher (Seq r1 r2) x c = matcher r1 x (\<lambda>y. matcher r2 y c)"
| "matcher (Alt r1 r2) x c =
     (case matcher r1 x c of Some z \<Rightarrow> Some z | None \<Rightarrow> matcher r2 x c)"
| "matcher (Group n r) x c =
     matcher r x
       (\<lambda>y. c (fst y, (snd y)(n \<mapsto> take (length (fst x) - length (fst y)) (fst x))))"
| "matcher EndOfInput x c = (if fst x = [] then c x else None)"

definition match_here :: "regex \<Rightarrow> jsstring \<Rightarrow> mstate option" where
  "match_here r s = matcher r (s, Map.empty) Some"

text \<open>
  \<open>message.match(regex)\<close> without the \<open>g\<close> flag: try the pattern at index 0, 1, ...
  up to and including the length of the input, and stop at the first index where it
  matches. The result is \<open>null\<close> (\<open>None\<close>) when no index matches.
\<close>

fun exec :: "regex \<Rightarrow> jsstring \<Rightarrow> mstate option" where
  "exec r [] = match_here r []"
| "exec r (a # s) = (case match_here r (a # s) of Some z \<Rightarrow> Some z | None \<Rightarrow> exec r s)"

fun literal :: "string \<Rightarrow> regex" where
  "literal [] = Empty"
| "literal (ch # cs) = Seq (Chars (Lit (of_char ch))) (literal cs)"

section \<open>The extractors\<close>

definition NA :: jsstring where
  "NA = str ''N/A''"

text \<open>\<open>match && match[1] ? v : "N/A"\<close>: the empty string is falsy, as \<open>undefined\<close> is.\<close>

definition group1 :: "mstate option \<Rightarrow> jsstring option" where
  "group1 m = (case m of
      None \<Rightarrow> None
    | Some y \<Rightarrow> (case snd y 1 of None \<Rightarrow> None | Some g \<Rightarrow> if g = [] then None else Some g))"

text \<open>\<open>/H2H\s+(\w+)/i\<close>\<close>

definition re_SourceBank :: regex where
  "re_SourceBank =
     Seq (literal ''H2H'') (Seq (Repeat SpaceClass 1 True) (Group 1 (Repeat WordClass 1 True)))"

definition extractSourceBank :: "jsstring \<Rightarrow> jsstring" where
  "extractSourceBank message =
     (case group1 (exec re_SourceBank message) of Some g \<Rightarrow> g | None \<Rightarrow> NA)"

text \<open>\<open>/to\s+([\s\S]*?)\s+Total/i\<close>\<close>

definition re_BeneficiaryBank :: regex where
  "re_BeneficiaryBank =
     Seq (literal ''to'') (Seq (Repeat SpaceClass 1 True)
       (Seq (Group 1 (Repeat AnyClass 0 False))
         (Seq (Repeat SpaceClass 1 True) (literal ''Total''))))"

definition extractBeneficiaryBank :: "jsstring \<Rightarrow> jsstring" where
  "extractBeneficiaryBank message =
     (case group1 (exec re_BeneficiaryBank message) of Some g \<Rightarrow> trim g | None \<Rightarrow> NA)"

text \<open>
  The part of the Beneficiary Bank pattern behind \<open>to\s+\<close>, that is
  \<open>([\s\S]*?)\s+Total\<close>, started on the input \<open>t\<close> with no capture yet.
\<close>

definition after_to :: "jsstring \<Rightarrow> mstate option" where
  "after_to t = matcher (Seq (Group (Suc 0) (Repeat AnyClass 0 False))
       (Seq (Repeat SpaceClass (Suc 0) True) (literal ''Total''))) (t, Map.empty) Some"

text \<open>\<open>/Total\s+(\d+)/i\<close>\<close>

definition re_Total :: regex where
  "re_Total =
     Seq (literal ''Total'') (Seq (Repeat SpaceClass 1 True) (Group 1 (Repeat DigitClass 1 True)))"

definition extractTotal :: "jsstring \<Rightarrow> jsstring" where
  "extractTotal message =
     (case group1 (exec re_Total message) of Some g \<Rightarrow> g | None \<Rightarrow> NA)"

text \<open>\<open>/(\d+)\s+ffb/i\<close>\<close>

definition re_FFB :: regex where
  "re_FFB =
     Seq (Group 1 (Repeat DigitClass 1 True)) (Seq (Repeat SpaceClass 1 True) (literal ''ffb''))"

definition extractFFB :: "jsstring \<Rightarrow> jsstring" where
  "extractFFB message =
     (case group1 (exec re_FFB message) of Some g \<Rightarrow> g | None \<Rightarrow> NA)"

text \<open>\<open>/notes\s+([\s\S]*?)(\n|$)/i\<close>\<close>

definition re_Notes :: regex where
  "re_Notes =
     Seq (literal ''notes'') (Seq (Repeat SpaceClass 1 True)
       (Seq (Group 1 (Repeat AnyClass 0 False))
         (Group 2 (Alt (Chars (Lit 10)) EndOfInput))))"

definition extractNotes :: "jsstring \<Rightarrow> jsstring" where
  "extractNotes message =
     (case group1 (exec re_Notes message) of Some g \<Rightarrow> trim g | None \<Rightarrow> NA)"

section \<open>Occurrences of an anchor\<close>

text \<open>
  What the description of the extractors calls an occurrence of an anchor literal,
  compared without regard to case: \<open>starts_with_ci lit s\<close> says that \<open>s\<close> begins with
  \<open>lit\<close>, \<open>occurs_ci lit s\<close> that some suffix of \<open>s\<close> does.
\<close>

definition starts_with_ci :: "jsstring \<Rightarrow> jsstring \<Rightarrow> bool" where
  "starts_with_ci lit s \<longleftrightarrow>
     length lit \<le> length s \<and> map Canonicalize (take (length lit) s) = map Canonicalize lit"

fun occurs_ci :: "jsstring \<Rightarrow> jsstring \<Rightarrow> bool" where
  "occurs_ci lit [] = starts_with_ci lit []"
| "occurs_ci lit (a # s) = (starts_with_ci lit (a # s) \<or> occurs_ci lit s)"

section \<open>Values, errors and the environment of the handler\<close>

text \<open>
  The values \<open>JSON.parse\<close> can produce, and \<open>undefined\<close>. A number is the value of a
  double: a rational or an infinity (the two zeros are not told apart by this program).
  An object is the list of its own properties.
\<close>

datatype jsnumber = Finite rat | PosInfinity | NegInfinity

datatype jsvalue =
    JUndefined
  | JNull
  | JBoolean bool
  | JNumber jsnumber
  | JString jsstring
  | JArray "jsvalue list"
  | JObject "(jsstring \<times> jsvalue) list"

datatype error = TypeError | SyntaxError | RangeError | ServiceError

text \<open>
  Property access \<open>v.k\<close> for the keys Script.js reads (\<open>postData\<close>, \<open>contents\<close>,
  \<open>type\<close>, \<open>challenge\<close>, \<open>event\<close>, \<open>text\<close>, \<open>channel\<close>, \<open>ts\<close>): none of
  them is a property of a prototype, so a primitive or an array gives \<open>undefined\<close>, an
  object gives its own property, and \<open>undefined\<close> and \<open>null\<close> throw.
\<close>

fun get :: "jsvalue \<Rightarrow> jsstring \<Rightarrow> error + jsvalue" where
  "get JUndefined k = Inl TypeError"
| "get JNull k = Inl TypeError"
| "get (JObject kvs) k = (case map_of kvs k of Some v \<Rightarrow> Inr v | None \<Rightarrow> Inr JUndefined)"
| "get v k = Inr JUndefined"

fun ToBoolean :: "jsvalue \<Rightarrow> bool" where
  "ToBoolean JUndefined = False"
| "ToBoolean JNull = False"
| "ToBoolean (JBoolean b) = b"
| "ToBoolean (JNumber n) = (n \<noteq> Finite 0)"
| "ToBoolean (JString s) = (s \<noteq> [])"
| "ToBoolean (JArray vs) = True"
| "ToBoolean (JObject kvs) = True"

text \<open>
  Conversion to a string, as string concatenation and a template literal do it. The
  format of a number is the platform's and is a parameter. An object parsed from JSON
  holds no function: when it has an own property \<open>toString\<close> the conversion finds no
  callable method and throws (\<open>None\<close>), otherwise it is \<open>[object Object]\<close>. An array
  joins the conversions of its elements with commas, \<open>undefined\<close> and \<open>null\<close> giving
  the empty string.
\<close>

fun ToString :: "(jsnumber \<Rightarrow> jsstring) \<Rightarrow> jsvalue \<Rightarrow> jsstring option"
  and join_elements :: "(jsnumber \<Rightarrow> jsstring) \<Rightarrow> jsvalue list \<Rightarrow> jsstring option" where
  "ToString nf JUndefined = Some (str ''undefined'')"
| "ToString nf JNull = Some (str ''null'')"
| "ToString nf (JBoolean b) = Some (if b then str ''true'' else str ''false'')"
| "ToString nf (JNumber n) = Some (nf n)"
| "ToString nf (JString s) = Some s"
| "ToString nf (JArray vs) = join_elements nf vs"
| "ToString nf (JObject kvs) =
     (if str ''toString'' \<in> fst ` set kvs then None else Some (str ''[object Object]''))"
| "join_elements nf [] = Some []"
| "join_elements nf (v # vs) =
     (case (if v = JUndefined \<or> v = JNull then Some [] else ToString nf v) of
        None \<Rightarrow> None
      | Some s \<Rightarrow>
          if vs = [] then Some s
          else (case join_elements nf vs of None \<Rightarrow> None | Some t \<Rightarrow> Some (s @ str '','' @ t)))"

text \<open>
  What the handler takes from its platform: the JSON parser (\<open>None\<close>: SyntaxError), the
  format of numbers, the two renderings of \<open>new Date(ts * 1000)\<close> as functions of the
  string \<open>ts\<close> (\<open>toISOString\<close> throws a RangeError on an invalid date), whether the
  active sheet can be obtained, and whether \<open>appendRow\<close> accepts a row.
\<close>

record env =
  JSON_parse :: "jsstring \<Rightarrow> jsvalue option"
  NumberToString :: "jsnumber \<Rightarrow> jsstring"
  toLocaleString_Jakarta :: "jsstring \<Rightarrow> jsstring"
  toISOString :: "jsstring \<Rightarrow> jsstring option"
  activeSheet :: bool
  appendRow_accepts :: "jsvalue list list \<Rightarrow> jsvalue list \<Rightarrow> bool"

text \<open>
  A log line is a string, or a prefix followed by \<open>JSON.stringify\<close> of a value, or the
  line the \<open>catch\<close> block writes for an error.
\<close>

datatype log_entry = Log jsstring | LogJSON jsstring jsvalue | LogError error

record world =
  sheet :: "jsvalue list list"
  logger :: "log_entry list"

text \<open>
  The response: a text output of MIME type JSON whose content is \<open>JSON.stringify\<close> of the
  value.
\<close>

datatype response = JsonOutput jsvalue

type_synonym 'a js = "world \<Rightarrow> (error + 'a) \<times> world"

definition ret :: "'a \<Rightarrow> 'a js" where
  "ret a = (\<lambda>w. (Inr a, w))"

definition lift :: "error + 'a \<Rightarrow> 'a js" where
  "lift r = (\<lambda>w. (r, w))"

definition bind :: "'a js \<Rightarrow> ('a \<Rightarrow> 'b js) \<Rightarrow> 'b js" where
  "bind m f = (\<lambda>w. case m w of (Inl e, w') \<Rightarrow> (Inl e, w') | (Inr a, w') \<Rightarrow> f a w')"

definition Logger_log :: "log_entry \<Rightarrow> unit js" where
  "Logger_log entry = (\<lambda>w. (Inr (), w\<lparr>logger := logger w @ [entry]\<rparr>))"

text \<open>\<open>Logger.log(prefix + v)\<close>: the concatenation converts \<open>v\<close> and may throw.\<close>

definition log_concat :: "env \<Rightarrow> jsstring \<Rightarrow> jsvalue \<Rightarrow> unit js" where
  "log_concat en prefix v =
     (case ToString (NumberToString en) v of
        None \<Rightarrow> lift (Inl TypeError)
      | Some s \<Rightarrow> Logger_log (Log (prefix @ s)))"

section \<open>The permalink\<close>

definition workspaceUrl :: jsstring where
  "workspaceUrl = str ''https://your-slack-workspace.slack.com''"

text \<open>
  \<open>s.replace(pat, rep)\<close> with a string pattern replaces the first occurrence only (the
  replacement of Script.js is empty, so it holds no \<open>$\<close> pattern).
\<close>

fun replace :: "jsstring \<Rightarrow> jsstring \<Rightarrow> jsstring \<Rightarrow> jsstring" where
  "replace pat rep [] = (if pat = [] then rep else [])"
| "replace pat rep (c # s) =
     (if take (length pat) (c # s) = pat then rep @ drop (length pat) (c # s)
      else c # replace pat rep s)"

text \<open>
  The template literal converts \<open>channelId\<close> to a string; \<open>timestamp.replace\<close> is a
  method of strings only, any other value throws a TypeError.
\<close>

definition generateSlackLink :: "env \<Rightarrow> jsvalue \<Rightarrow> jsvalue \<Rightarrow> error + jsstring" where
  "generateSlackLink en channelId timestamp =
     (case ToString (NumberToString en) channelId of
        None \<Rightarrow> Inl TypeError
      | Some ch \<Rightarrow>
          (case timestamp of
             JString ts \<Rightarrow>
               Inr (workspaceUrl @ str ''/archives/'' @ ch @ str ''/p'' @ replace (str ''.'') [] ts)
           | _ \<Rightarrow> Inl TypeError))"

section \<open>The webhook handler\<close>

text \<open>\<open>extract(messageText)\<close>: \<open>message.match\<close> exists on strings only.\<close>

definition call_extractor :: "(jsstring \<Rightarrow> jsstring) \<Rightarrow> jsvalue \<Rightarrow> error + jsstring" where
  "call_extractor f v = (case v of JString s \<Rightarrow> Inr (f s) | _ \<Rightarrow> Inl TypeError)"

text \<open>\<open>s.split(", ")\<close>, written for a separator of two code units \<open>a\<close>, \<open>b\<close>.\<close>

fun split2 :: "nat \<Rightarrow> nat \<Rightarrow> jsstring \<Rightarrow> jsstring \<Rightarrow> jsstring list" where
  "split2 a b cur [] = [rev cur]"
| "split2 a b cur [c] = [rev (c # cur)]"
| "split2 a b cur (c # d # s) =
     (if c = a \<and> d = b then rev cur # split2 a b [] s else split2 a b (c # cur) (d # s))"

definition index :: "jsstring list \<Rightarrow> nat \<Rightarrow> jsvalue" where
  "index xs i = (if i < length xs then JString (xs ! i) else JUndefined)"

text \<open>Line 20: \<open>JSON.parse(e.postData.contents)\<close>.\<close>

definition parse_body :: "env \<Rightarrow> jsvalue \<Rightarrow> error + jsvalue" where
  "parse_body en e =
     (case get e (str ''postData'') of
        Inl err \<Rightarrow> Inl err
      | Inr pd \<Rightarrow>
          (case get pd (str ''contents'') of
             Inl err \<Rightarrow> Inl err
           | Inr contents \<Rightarrow>
               (case ToString (NumberToString en) contents of
                  None \<Rightarrow> Inl TypeError
                | Some text \<Rightarrow>
                    (case JSON_parse en text of None \<Rightarrow> Inl SyntaxError | Some data \<Rightarrow> Inr data))))"

text \<open>Line 34: \<open>data.event && data.event.type === "app_mention"\<close>.\<close>

definition is_app_mention :: "jsvalue \<Rightarrow> error + bool" where
  "is_app_mention data =
     (case get data (str ''event'') of
        Inl err \<Rightarrow> Inl err
      | Inr ev \<Rightarrow>
          if ToBoolean ev then
            (case get ev (str ''type'') of
               Inl err \<Rightarrow> Inl err
             | Inr t \<Rightarrow> Inr (t = JString (str ''app_mention'')))
          else Inr False)"

text \<open>Lines 62 to 73: the active sheet, the row, the append.\<close>

definition appendRow :: "env \<Rightarrow> jsvalue list \<Rightarrow> unit js" where
  "appendRow en row =
     (\<lambda>w. if appendRow_accepts en (sheet w) row then (Inr (), w\<lparr>sheet := sheet w @ [row]\<rparr>)
          else (Inl ServiceError, w))"

text \<open>Lines 35 to 75, the body of the \<open>app_mention\<close> branch.\<close>

definition handle_mention :: "env \<Rightarrow> jsvalue \<Rightarrow> unit js" where
  "handle_mention en ev =
     bind (lift (get ev (str ''text''))) (\<lambda>messageText.
     bind (log_concat en (str ''Message received: '') messageText) (\<lambda>_.
     bind (lift (call_extractor extractSourceBank messageText)) (\<lambda>sourceBank.
     bind (lift (call_extractor extractBeneficiaryBank messageText)) (\<lambda>beneficiaryBank.
     bind (lift (call_extractor extractTotal messageText)) (\<lambda>total.
     bind (lift (call_extractor extractFFB messageText)) (\<lambda>ffb.
     bind (lift (call_extractor extractNotes messageText)) (\<lambda>notes.
     bind (lift (get ev (str ''channel''))) (\<lambda>channel.
     bind (lift (get ev (str ''ts''))) (\<lambda>ts.
     bind (lift (generateSlackLink en channel ts)) (\<lambda>linkSlack.
     bind (Logger_log (Log (str ''Source Bank: '' @ sourceBank))) (\<lambda>_.
     bind (Logger_log (Log (str ''Beneficiary Bank: '' @ beneficiaryBank))) (\<lambda>_.
     bind (Logger_log (Log (str ''Total: '' @ total))) (\<lambda>_.
     bind (Logger_log (Log (str ''FFB: '' @ ffb))) (\<lambda>_.
     bind (Logger_log (Log (str ''Notes: '' @ notes))) (\<lambda>_.
     bind (Logger_log (Log (str ''Link Slack: '' @ linkSlack))) (\<lambda>_.
     (case ts of
        JString tss \<Rightarrow>
          (let dateTime = split2 44 32 [] (toLocaleString_Jakarta en tss);
               date = index dateTime 0;
               time = index dateTime 1
           in if \<not> activeSheet en then lift (Inl TypeError)
              else (case toISOString en tss of
                      None \<Rightarrow> lift (Inl RangeError)
                    | Some isoString \<Rightarrow>
                        bind (appendRow en
                                [JString isoString, date, time, JString sourceBank,
                                 JString beneficiaryBank, JString total, JString ffb,
                                 JString notes, JString linkSlack]) (\<lambda>_.
                        Logger_log (Log (str ''Data successfully written to sheet.'')))))
      | _ \<Rightarrow> lift (Inl TypeError))))))))))))))))))"

text \<open>
  Lines 16 to 76, the body of the \<open>try\<close>: \<open>Some r\<close> when it returns the response \<open>r\<close>,
  \<open>None\<close> when it runs to its end.
\<close>

definition try_body :: "env \<Rightarrow> jsvalue \<Rightarrow> response option js" where
  "try_body en e =
     bind (Logger_log (LogJSON (str ''Data received from Slack: '') e)) (\<lambda>_.
     bind (lift (parse_body en e)) (\<lambda>data.
     bind (Logger_log (LogJSON (str ''Parsed data: '') data)) (\<lambda>_.
     bind (lift (get data (str ''type''))) (\<lambda>ty.
     if ty = JString (str ''url_verification'') then
       bind (Logger_log (Log (str ''URL verification request received.''))) (\<lambda>_.
       bind (lift (get data (str ''challenge''))) (\<lambda>challenge.
       bind (log_concat en (str ''Challenge: '') challenge) (\<lambda>_.
       ret (Some (JsonOutput (JObject [(str ''challenge'', challenge)]))))))
     else
       bind (lift (is_app_mention data)) (\<lambda>mention.
       if mention then
         bind (lift (get data (str ''event''))) (\<lambda>ev.
         bind (handle_mention en ev) (\<lambda>_. ret None))
       else ret None)))))"

definition success :: response where
  "success = JsonOutput (JObject [(str ''success'', JBoolean True)])"

text \<open>
  \<open>doPost\<close>: the \<open>try\<close>, the \<open>catch\<close> that logs the error, and the return of line 83.
\<close>

definition doPost :: "env \<Rightarrow> jsvalue \<Rightarrow> world \<Rightarrow> response \<times> world" where
  "doPost en e w =
     (case try_body en e w of
        (Inr (Some r), w') \<Rightarrow> (r, w')
      | (Inr None, w') \<Rightarrow> (success, w')
      | (Inl err, w') \<Rightarrow> (success, w'\<lparr>logger := logger w' @ [LogError err]\<rparr>))"

text \<open>The request is a handshake: its body parses and has \<open>type\<close> \<open>url_verification\<close>.\<close>

definition is_url_verification :: "env \<Rightarrow> jsvalue \<Rightarrow> bool" where
  "is_url_verification en e \<longleftrightarrow>
     (case parse_body en e of
        Inl err \<Rightarrow> False
      | Inr data \<Rightarrow> get data (str ''type'') = Inr (JString (str ''url_verification'')))"

section \<open>Requests and an environment for the examples\<close>

text \<open>
  The event object the platform hands to \<open>doPost\<close> for a POST with the given body.
\<close>

definition request :: "jsstring \<Rightarrow> jsvalue" where
  "request body = JObject [(str ''postData'', JObject [(str ''contents'', JString body)])]"

text \<open>
  An environment for the examples: the parser is given, the date renderings are those of
  the instant 2023-10-25T12:34:56.123Z, the active sheet exists.
\<close>

definition example_env :: "(jsstring \<Rightarrow> jsvalue option) \<Rightarrow> bool \<Rightarrow> env" where
  "example_env parse accepts =
     \<lparr>JSON_parse = parse, NumberToString = (\<lambda>n. []),
      toLocaleString_Jakarta = (\<lambda>ts. str ''10/25/2023, 7:34:56 PM''),
      toISOString = (\<lambda>ts. Some (str ''2023-10-25T12:34:56.123Z'')),
      activeSheet = True, appendRow_accepts = (\<lambda>rows row. accepts)\<rparr>"

text \<open>A parser that knows one text.\<close>

definition parses_to :: "jsstring \<Rightarrow> jsvalue \<Rightarrow> jsstring \<Rightarrow> jsvalue option" where
  "parses_to body v s = (if s = body then Some v else None)"

text \<open>The body of a mention event, and what \<open>JSON.parse\<close> makes of it.\<close>

definition mention_body :: jsstring where
  \<open>mention_body = str ''{"event":{"type":"app_mention","text":"H2H BRI to BCA Total 9000 (5 ffb) notes Insufficient balance","channel":"C1234567890","ts":"1698237296.123456"}}''\<close>

definition mention_event :: jsvalue where
  "mention_event = JObject [(str ''event'', JObject
     [(str ''type'', JString (str ''app_mention'')),
      (str ''text'', JString (str ''H2H BRI to BCA Total 9000 (5 ffb) notes Insufficient balance'')),
      (str ''channel'', JString (str ''C1234567890'')),
      (str ''ts'', JString (str ''1698237296.123456''))])]"

section \<open>Properties of occurrences\<close>

lemma starts_with_ci_Nil [simp]: "starts_with_ci [] s"
  by (simp add: starts_with_ci_def)

lemma starts_with_ci_Cons:
  "starts_with_ci (a # lit) s \<longleftrightarrow>
     (case s of [] \<Rightarrow> False | b # t \<Rightarrow> Canonicalize b = Canonicalize a \<and> starts_with_ci lit t)"
  by (cases s) (auto simp: starts_with_ci_def)

lemma starts_with_ci_append:
  "map Canonicalize w = map Canonicalize lit \<Longrightarrow> starts_with_ci lit (w @ s)"
proof -
  assume a: "map Canonicalize w = map Canonicalize lit"
  then have "length w = length lit" by (metis length_map)
  then show ?thesis using a by (simp add: starts_with_ci_def)
qed

lemma occurs_ci_iff: "occurs_ci lit s \<longleftrightarrow> (\<exists>i\<le>length s. starts_with_ci lit (drop i s))"
proof (induction s)
  case Nil
  then show ?case by simp
next
  case (Cons a s)
  have "(\<exists>i\<le>length (a # s). starts_with_ci lit (drop i (a # s))) \<longleftrightarrow>
        starts_with_ci lit (a # s) \<or> (\<exists>i\<le>length s. starts_with_ci lit (drop i s))"
  proof
    assume "\<exists>i\<le>length (a # s). starts_with_ci lit (drop i (a # s))"
    then obtain i where i: "i \<le> length (a # s)" "starts_with_ci lit (drop i (a # s))" by blast
    show "starts_with_ci lit (a # s) \<or> (\<exists>i\<le>length s. starts_with_ci lit (drop i s))"
    proof (cases i)
      case 0
      then show ?thesis using i by simp
    next
      case (Suc j)
      then show ?thesis using i by auto
    qed
  next
    assume "starts_with_ci lit (a # s) \<or> (\<exists>i\<le>length s. starts_with_ci lit (drop i s))"
    then show "\<exists>i\<le>length (a # s). starts_with_ci lit (drop i (a # s))"
    proof
      assume "starts_with_ci lit (a # s)"
      then show ?thesis by (intro exI[of _ 0]) simp
    next
      assume "\<exists>i\<le>length s. starts_with_ci lit (drop i s)"
      then obtain i where "i \<le> length s" "starts_with_ci lit (drop i s)" by blast
      then show ?thesis by (intro exI[of _ "Suc i"]) simp
    qed
  qed
  then show ?case using Cons.IH by simp
qed

text \<open>
  \<open>occurs_ci\<close> is the usual notion: the message splits into a prefix, a part equal to
  the literal up to case, and a rest.
\<close>

lemma occurs_ci_split:
  "occurs_ci lit s \<longleftrightarrow>
     (\<exists>pre w post. s = pre @ w @ post \<and> map Canonicalize w = map Canonicalize lit)"
proof
  assume "occurs_ci lit s"
  then obtain i where i: "i \<le> length s" "starts_with_ci lit (drop i s)"
    by (auto simp: occurs_ci_iff)
  have "s = take i s @ take (length lit) (drop i s) @ drop (length lit) (drop i s)"
    by (metis append_take_drop_id)
  moreover have "map Canonicalize (take (length lit) (drop i s)) = map Canonicalize lit"
    using i by (simp add: starts_with_ci_def)
  ultimately show "\<exists>pre w post. s = pre @ w @ post \<and> map Canonicalize w = map Canonicalize lit"
    by blast
next
  assume "\<exists>pre w post. s = pre @ w @ post \<and> map Canonicalize w = map Canonicalize lit"
  then obtain pre w post where s: "s = pre @ w @ post"
    and w: "map Canonicalize w = map Canonicalize lit" by blast
  have "starts_with_ci lit (drop (length pre) s)" using s starts_with_ci_append[OF w] by simp
  moreover have "length pre \<le> length s" using s by simp
  ultimately show "occurs_ci lit s" using occurs_ci_iff by blast
qed

section \<open>Properties of the quantifiers\<close>

lemma repeat_sound:
  "repeat_matcher p m g s c = Some z \<Longrightarrow>
   \<exists>k\<le>length s. m \<le> k \<and> (\<forall>a\<in>set (take k s). p a) \<and> c (drop k s) = Some z"
proof (induction s arbitrary: m)
  case Nil
  then show ?case by (auto split: if_splits)
next
  case (Cons a s)
  show ?case
  proof (cases "m = 0")
    case False
    with Cons.prems have pa: "p a" and rec: "repeat_matcher p (m - 1) g s c = Some z"
      by (auto split: if_splits)
    from Cons.IH[OF rec] obtain k where k: "k \<le> length s" "m - 1 \<le> k"
      "\<forall>a\<in>set (take k s). p a" "c (drop k s) = Some z" by blast
    show ?thesis
      by (rule exI[of _ "Suc k"]) (use k pa False in auto)
  next
    case True
    consider (here) "c (a # s) = Some z"
      | (more) "p a" "repeat_matcher p 0 g s c = Some z"
      using Cons.prems True by (cases g) (auto split: if_splits option.splits)
    then show ?thesis
    proof cases
      case here
      show ?thesis by (rule exI[of _ 0]) (use here True in auto)
    next
      case more
      from Cons.IH[OF more(2)] obtain k where k: "k \<le> length s"
        "\<forall>a\<in>set (take k s). p a" "c (drop k s) = Some z" by blast
      show ?thesis
        by (rule exI[of _ "Suc k"]) (use k more True in auto)
    qed
  qed
qed

text \<open>
  A greedy quantifier commits to the longest run when the continuation fails at every
  shorter one (or is never tried there).
\<close>

lemma repeat_greedy:
  "(\<And>k. m \<le> k \<Longrightarrow> k < length (takeWhile p s) \<Longrightarrow> c (drop k s) = None) \<Longrightarrow>
   repeat_matcher p m True s c =
     (if m \<le> length (takeWhile p s) then c (dropWhile p s) else None)"
proof (induction s arbitrary: m)
  case Nil
  then show ?case by simp
next
  case (Cons a s)
  show ?case
  proof (cases "p a")
    case False
    then show ?thesis by (auto split: option.splits)
  next
    case True
    have IH: "repeat_matcher p (m - 1) True s c =
       (if m - 1 \<le> length (takeWhile p s) then c (dropWhile p s) else None)"
    proof (rule Cons.IH)
      fix k assume "m - 1 \<le> k" "k < length (takeWhile p s)"
      then show "c (drop k s) = None"
        using Cons.prems[of "Suc k"] True by auto
    qed
    show ?thesis
    proof (cases "m = 0")
      case False
      then show ?thesis using True IH by auto
    next
      case m0: True
      have "c (a # s) = None" if "c (dropWhile p s) = None"
      proof (cases "takeWhile p s = []")
        case True
        then have "dropWhile p s = s" by (metis append_Nil takeWhile_dropWhile_id)
        hence "c s = None" using that by simp
        show ?thesis  using Cons.prems[of 0] m0 \<open>p a\<close> by simp
      next
        case False
        then show ?thesis using Cons.prems[of 0] m0 \<open>p a\<close> by simp
      qed
      then show ?thesis using True IH m0 by (auto split: option.splits)
    qed
  qed
qed

lemma repeat_lazy_sound:
  "repeat_matcher p 0 False s c = Some z \<Longrightarrow>
   \<exists>k\<le>length s. (\<forall>a\<in>set (take k s). p a) \<and> c (drop k s) = Some z \<and> (\<forall>j<k. c (drop j s) = None)"
proof (induction s)
  case Nil
  then show ?case by auto
next
  case (Cons a s)
  show ?case
  proof (cases "c (a # s)")
    case (Some y)
    then have "c (a # s) = Some z" using Cons.prems by simp
    then show ?thesis by (intro exI[of _ 0]) auto
  next
    case None
    with Cons.prems have pa: "p a" and rec: "repeat_matcher p 0 False s c = Some z"
      by (auto split: if_splits)
    from Cons.IH[OF rec] obtain k where k: "k \<le> length s" "\<forall>a\<in>set (take k s). p a"
      "c (drop k s) = Some z" "\<forall>j<k. c (drop j s) = None" by blast
    have "\<forall>j<Suc k. c (drop j (a # s)) = None"
    proof (intro allI impI)
      fix j assume "j < Suc k"
      then show "c (drop j (a # s)) = None"
        using None k(4) by (cases j) auto
    qed
    then show ?thesis
      by (intro exI[of _ "Suc k"]) (use k pa in auto)
  qed
qed

lemma repeat_lazy_first:
  "k \<le> length s \<Longrightarrow> (\<forall>a\<in>set (take k s). p a) \<Longrightarrow> c (drop k s) = Some z \<Longrightarrow>
   (\<forall>j<k. c (drop j s) = None) \<Longrightarrow> repeat_matcher p 0 False s c = Some z"
proof (induction s arbitrary: k)
  case Nil
  then show ?case by simp
next
  case (Cons a s)
  show ?case
  proof (cases k)
    case 0
    then show ?thesis using Cons.prems by simp
  next
    case (Suc k')
    have none: "c (a # s) = None" using Cons.prems(4) Suc by (metis drop0 zero_less_Suc)
    have "repeat_matcher p 0 False s c = Some z"
    proof (rule Cons.IH[of k'])
      show "k' \<le> length s" using Cons.prems Suc by simp
      show "\<forall>a\<in>set (take k' s). p a" using Cons.prems Suc by simp
      show "c (drop k' s) = Some z" using Cons.prems Suc by simp
      show "\<forall>j<k'. c (drop j s) = None"
      proof (intro allI impI)
        fix j assume "j < k'"
        then have "Suc j < k" using Suc by simp
        from Cons.prems(4)[rule_format, OF this] show "c (drop j s) = None" by simp
      qed
    qed
    moreover have "p a" using Cons.prems Suc by simp
    ultimately show ?thesis using none by simp
  qed
qed

section \<open>Properties of the matcher and of the search\<close>

lemma matcher_literal:
  "matcher (literal cs) x c =
     (if starts_with_ci (str cs) (fst x) then c (drop (length cs) (fst x), snd x) else None)"
proof (induction cs arbitrary: x)
  case Nil
  then show ?case by (simp add: str_def)
next
  case (Cons ch cs)
  show ?case
  proof (cases "fst x")
    case Nil
    then show ?thesis by (simp add: str_def starts_with_ci_Cons)
  next
    case (Cons b t)
    then show ?thesis
      using Cons.IH[of "(t, snd x)"] by (simp add: str_def starts_with_ci_Cons)
  qed
qed

lemma matcher_suffix:
  "matcher r x c = Some z \<Longrightarrow> \<exists>y. c y = Some z \<and> (\<exists>k\<le>length (fst x). fst y = drop k (fst x))"
proof (induction r arbitrary: x c)
  case Empty
  then show ?case by (intro exI[of _ x]) (auto intro: exI[of _ 0])
next
  case (Chars cl)
  then obtain a s where x: "fst x = a # s" and c: "c (s, snd x) = Some z"
    by (auto split: list.splits if_splits)
  show ?case by (rule exI[of _ "(s, snd x)"]) (use x c in \<open>auto intro: exI[of _ 1]\<close>)
next
  case (Repeat cl m g)
  then have "repeat_matcher (class_matches cl) m g (fst x) (\<lambda>s. c (s, snd x)) = Some z" by simp
  from repeat_sound[OF this] obtain k where "k \<le> length (fst x)" "c (drop k (fst x), snd x) = Some z"
    by blast
  then show ?case by (intro exI[of _ "(drop k (fst x), snd x)"]) auto
next
  case (Seq r1 r2)
  from Seq.prems have "matcher r1 x (\<lambda>y. matcher r2 y c) = Some z" by simp
  from Seq.IH(1)[OF this] obtain y k where y: "matcher r2 y c = Some z"
    "k \<le> length (fst x)" "fst y = drop k (fst x)" by blast
  from Seq.IH(2)[OF y(1)] obtain y' k' where y': "c y' = Some z"
    "k' \<le> length (fst y)" "fst y' = drop k' (fst y)" by blast
  have "fst y' = drop (k' + k) (fst x)" using y y' by simp
  moreover have "k' + k \<le> length (fst x)" using y y' by simp
  ultimately show ?case using y'(1) by blast
next
  case (Alt r1 r2)
  then have "matcher r1 x c = Some z \<or> matcher r2 x c = Some z"
    by (auto split: option.splits)
  then show ?case using Alt.IH by blast
next
  case (Group n r)
  from Group.prems have "matcher r x
       (\<lambda>y. c (fst y, (snd y)(n \<mapsto> take (length (fst x) - length (fst y)) (fst x)))) = Some z"
    by simp
  from Group.IH[OF this] obtain y k where
    "c (fst y, (snd y)(n \<mapsto> take (length (fst x) - length (fst y)) (fst x))) = Some z"
    "k \<le> length (fst x)" "fst y = drop k (fst x)" by blast
  then show ?case
    by (intro exI[of _ "(fst y, (snd y)(n \<mapsto> take (length (fst x) - length (fst y)) (fst x)))"]) auto
next
  case EndOfInput
  then show ?case by (intro exI[of _ x]) (auto split: if_splits intro: exI[of _ 0])
qed

lemma exec_SomeD:
  "exec r s = Some z \<Longrightarrow>
   \<exists>i\<le>length s. match_here r (drop i s) = Some z \<and> (\<forall>j<i. match_here r (drop j s) = None)"
proof (induction s)
  case Nil
  then show ?case by simp
next
  case (Cons a s)
  show ?case
  proof (cases "match_here r (a # s)")
    case (Some y)
    then have "match_here r (a # s) = Some z" using Cons.prems by simp
    then show ?thesis by (intro exI[of _ 0]) simp
  next
    case None
    then have "exec r s = Some z" using Cons.prems by simp
    from Cons.IH[OF this] obtain i where i: "i \<le> length s" "match_here r (drop i s) = Some z"
      "\<forall>j<i. match_here r (drop j s) = None" by blast
    have "\<forall>j<Suc i. match_here r (drop j (a # s)) = None"
    proof (intro allI impI)
      fix j assume "j < Suc i"
      then show "match_here r (drop j (a # s)) = None" using None i(3) by (cases j) auto
    qed
    then show ?thesis by (intro exI[of _ "Suc i"]) (use i in auto)
  qed
qed

lemma exec_first:
  "i \<le> length s \<Longrightarrow> match_here r (drop i s) = Some z \<Longrightarrow>
   (\<forall>j<i. match_here r (drop j s) = None) \<Longrightarrow> exec r s = Some z"
proof (induction s arbitrary: i)
  case Nil
  then show ?case by simp
next
  case (Cons a s)
  show ?case
  proof (cases i)
    case 0
    then show ?thesis using Cons.prems by simp
  next
    case (Suc i')
    have none: "match_here r (a # s) = None"
      using Cons.prems(3) Suc by (metis drop0 zero_less_Suc)
    have "exec r s = Some z"
    proof (rule Cons.IH[of i'])
      show "i' \<le> length s" using Cons.prems Suc by simp
      show "match_here r (drop i' s) = Some z" using Cons.prems Suc by simp
      show "\<forall>j<i'. match_here r (drop j s) = None"
      proof (intro allI impI)
        fix j assume "j < i'"
        then have "Suc j < i" using Suc by simp
        from Cons.prems(3)[rule_format, OF this] show "match_here r (drop j s) = None" by simp
      qed
    qed
    then show ?thesis using none by simp
  qed
qed

lemma exec_None:
  "(\<forall>i\<le>length s. match_here r (drop i s) = None) \<Longrightarrow> exec r s = None"
proof (rule ccontr)
  assume a: "\<forall>i\<le>length s. match_here r (drop i s) = None" and "exec r s \<noteq> None"
  then obtain z where "exec r s = Some z" by auto
  from exec_SomeD[OF this] a show False by auto
qed

section \<open>Closed forms of the patterns\<close>

lemma ws_not_word: "isWhiteSpace a \<Longrightarrow> \<not> isWordChar a"
  by (auto simp: isWhiteSpace_def isWordChar_def isDigit_def)

lemma ws_not_digit: "isWhiteSpace a \<Longrightarrow> \<not> isDigit a"
  by (auto simp: isWhiteSpace_def isDigit_def)

lemma Canonicalize_LF: "Canonicalize b = Canonicalize 10 \<longleftrightarrow> b = 10"
  by (auto simp: Canonicalize_def)

lemma class_matches_Space: "class_matches SpaceClass = isWhiteSpace"
  by (rule ext) simp

lemma class_matches_Any: "class_matches AnyClass = (\<lambda>_. True)"
  by (rule ext) simp

lemma take_length_dropWhile: "take (length t - length (dropWhile P t)) t = takeWhile P t"
proof -
  have "length t = length (takeWhile P t) + length (dropWhile P t)"
    by (metis length_append takeWhile_dropWhile_id)
  then have "length t - length (dropWhile P t) = length (takeWhile P t)" by simp
  then show ?thesis by (metis append_eq_conv_conj takeWhile_dropWhile_id)
qed

lemma takeWhile_Nil_iff: "takeWhile P t = [] \<longleftrightarrow> (t = [] \<or> \<not> P (hd t))"
  by (cases t) auto

lemma repeat_greedy_commit:
  "c (dropWhile p s) \<noteq> None \<Longrightarrow>
   repeat_matcher p m True s c =
     (if m \<le> length (takeWhile p s) then c (dropWhile p s) else None)"
proof (induction s arbitrary: m)
  case Nil
  then show ?case by simp
next
  case (Cons a s)
  show ?case
  proof (cases "p a")
    case False
    then show ?thesis by (auto split: option.splits)
  next
    case True
    then have "c (dropWhile p s) \<noteq> None" using Cons.prems by simp
    from Cons.IH[OF this] have IH: "repeat_matcher p k True s c =
       (if k \<le> length (takeWhile p s) then c (dropWhile p s) else None)" for k .
    show ?thesis
    proof (cases "m = 0")
      case False
      then show ?thesis using True IH[of "m - 1"] by auto
    next
      case m0: True
      then show ?thesis using True IH[of 0] \<open>c (dropWhile p s) \<noteq> None\<close> by auto
    qed
  qed
qed

lemma drop_in_run:
  assumes "k < length (takeWhile P s)"
  shows "drop k s \<noteq> [] \<and> P (hd (drop k s))"
proof -
  have len: "k < length s" using assms by (meson length_takeWhile_le less_le_trans)
  then have ne: "drop k s \<noteq> []" by simp
  have "hd (drop k s) = s ! k" using len by (simp add: hd_drop_conv_nth)
  also have "\<dots> = takeWhile P s ! k" using assms by (simp add: takeWhile_nth)
  finally have "hd (drop k s) \<in> set (takeWhile P s)" using assms by simp
  then show ?thesis using ne by (auto dest: set_takeWhileD)
qed

text \<open>A capturing group around a greedy \<open>+\<close> at the end of a pattern.\<close>
lemma matcher_group_plus:
  "matcher (Group n (Repeat cl (Suc 0) True)) (t, caps) Some =
     (if takeWhile (class_matches cl) t = [] then None
      else Some (dropWhile (class_matches cl) t, caps(n \<mapsto> takeWhile (class_matches cl) t)))"
proof -
  let ?P = "class_matches cl"
  let ?c = "\<lambda>s. Some (s, caps(n \<mapsto> take (length t - length s) t))"
  have "repeat_matcher ?P (Suc 0) True t ?c =
          (if Suc 0 \<le> length (takeWhile ?P t) then ?c (dropWhile ?P t) else None)"
    by (rule repeat_greedy_commit) simp
  moreover have "Suc 0 \<le> length (takeWhile ?P t) \<longleftrightarrow> takeWhile ?P t \<noteq> []"
    by (cases "takeWhile ?P t") auto
  ultimately show ?thesis by (simp add: take_length_dropWhile)
qed

text \<open>The shape of the Source Bank and Total patterns: anchor, \<open>\s+\<close>, one captured run.\<close>
lemma match_here_anchor_field:
  assumes disj: "\<And>a. isWhiteSpace a \<Longrightarrow> \<not> class_matches cl a"
  shows "match_here (Seq (literal lit) (Seq (Repeat SpaceClass (Suc 0) True) (Group n (Repeat cl (Suc 0) True)))) s =
     (if starts_with_ci (str lit) s
         \<and> takeWhile isWhiteSpace (drop (length lit) s) \<noteq> []
         \<and> takeWhile (class_matches cl) (dropWhile isWhiteSpace (drop (length lit) s)) \<noteq> []
      then Some (dropWhile (class_matches cl) (dropWhile isWhiteSpace (drop (length lit) s)),
                 [n \<mapsto> takeWhile (class_matches cl) (dropWhile isWhiteSpace (drop (length lit) s))])
      else None)"
proof -
  let ?P = "class_matches cl"
  let ?s0 = "drop (length lit) s"
  let ?c = "\<lambda>t. matcher (Group n (Repeat cl (Suc 0) True)) (t, Map.empty) Some"
  have fail: "?c (drop k ?s0) = None" if "Suc 0 \<le> k" "k < length (takeWhile isWhiteSpace ?s0)" for k
  proof -
    have "drop k ?s0 \<noteq> [] \<and> isWhiteSpace (hd (drop k ?s0))"
      using that(2) by (rule drop_in_run)
    then have "takeWhile ?P (drop k ?s0) = []"
      using disj by (simp only: takeWhile_Nil_iff) blast
    then show ?thesis by (simp only: matcher_group_plus refl if_True)
  qed
  have "repeat_matcher isWhiteSpace (Suc 0) True ?s0 ?c =
     (if Suc 0 \<le> length (takeWhile isWhiteSpace ?s0) then ?c (dropWhile isWhiteSpace ?s0) else None)"
    by (rule repeat_greedy) (use fail in blast)
  moreover have "Suc 0 \<le> length (takeWhile isWhiteSpace ?s0) \<longleftrightarrow> takeWhile isWhiteSpace ?s0 \<noteq> []"
    by (cases "takeWhile isWhiteSpace ?s0") auto
  ultimately have run: "repeat_matcher isWhiteSpace (Suc 0) True ?s0 ?c =
     (if takeWhile isWhiteSpace ?s0 \<noteq> [] then ?c (dropWhile isWhiteSpace ?s0) else None)"
    by simp
  have "match_here (Seq (literal lit) (Seq (Repeat SpaceClass (Suc 0) True) (Group n (Repeat cl (Suc 0) True)))) s =
     (if starts_with_ci (str lit) s then repeat_matcher isWhiteSpace (Suc 0) True ?s0 ?c else None)"
    unfolding match_here_def matcher.simps(4) matcher_literal matcher.simps(3) class_matches_Space
    by (simp del: matcher.simps)
  also have "\<dots> = (if starts_with_ci (str lit) s \<and> takeWhile isWhiteSpace ?s0 \<noteq> []
       then ?c (dropWhile isWhiteSpace ?s0) else None)"
    unfolding run by simp
  finally show ?thesis
    unfolding matcher_group_plus by (simp del: matcher.simps)
qed

lemma class_matches_Word: "class_matches WordClass = isWordChar"
  by (rule ext) simp

lemma class_matches_Digit: "class_matches DigitClass = isDigit"
  by (rule ext) simp

lemma match_here_SourceBank:
  "match_here re_SourceBank s =
     (if starts_with_ci (str ''H2H'') s
         \<and> takeWhile isWhiteSpace (drop 3 s) \<noteq> []
         \<and> takeWhile isWordChar (dropWhile isWhiteSpace (drop 3 s)) \<noteq> []
      then Some (dropWhile isWordChar (dropWhile isWhiteSpace (drop 3 s)),
                 [1 \<mapsto> takeWhile isWordChar (dropWhile isWhiteSpace (drop 3 s))])
      else None)"
proof -
  have len: "length ''H2H'' = 3" by simp
  show ?thesis
    unfolding re_SourceBank_def One_nat_def
    by (subst match_here_anchor_field)
       (simp_all only: class_matches_Word ws_not_word len not_False_eq_True)
qed

lemma match_here_Total:
  "match_here re_Total s =
     (if starts_with_ci (str ''Total'') s
         \<and> takeWhile isWhiteSpace (drop 5 s) \<noteq> []
         \<and> takeWhile isDigit (dropWhile isWhiteSpace (drop 5 s)) \<noteq> []
      then Some (dropWhile isDigit (dropWhile isWhiteSpace (drop 5 s)),
                 [1 \<mapsto> takeWhile isDigit (dropWhile isWhiteSpace (drop 5 s))])
      else None)"
proof -
  have len: "length ''Total'' = 5" by simp
  show ?thesis
    unfolding re_Total_def One_nat_def
    by (subst match_here_anchor_field)
       (simp_all only: class_matches_Digit ws_not_digit len not_False_eq_True)
qed

lemma notes_end:
  "matcher (Group 2 (Alt (Chars (Lit 10)) EndOfInput)) (u, caps) Some =
     (case u of
        [] \<Rightarrow> Some ([], caps(2 \<mapsto> []))
      | b # v \<Rightarrow> if b = 10 then Some (v, caps(2 \<mapsto> [b])) else None)"
  by (cases u) (simp_all add: Canonicalize_LF)

lemma notes_end_Some:
  "u = [] \<or> hd u = 10 \<Longrightarrow>
   matcher (Group 2 (Alt (Chars (Lit 10)) EndOfInput)) (u, caps) Some =
     Some (drop (Suc 0) u, caps(2 \<mapsto> take (Suc 0) u))"
  unfolding notes_end by (cases u) auto

lemma notes_end_None:
  "u \<noteq> [] \<and> hd u \<noteq> 10 \<Longrightarrow>
   matcher (Group 2 (Alt (Chars (Lit 10)) EndOfInput)) (u, caps) Some = None"
  unfolding notes_end by (cases u) auto

lemma notes_tail:
  "matcher (Seq (Group (Suc 0) (Repeat AnyClass 0 False)) (Group 2 (Alt (Chars (Lit 10)) EndOfInput)))
     (t, caps) Some =
   Some (drop (Suc 0) (dropWhile (\<lambda>c. c \<noteq> 10) t),
         caps(Suc 0 \<mapsto> takeWhile (\<lambda>c. c \<noteq> 10) t, 2 \<mapsto> take (Suc 0) (dropWhile (\<lambda>c. c \<noteq> 10) t)))"
proof -
  let ?g = "takeWhile (\<lambda>c. c \<noteq> 10) t"
  let ?u = "dropWhile (\<lambda>c. c \<noteq> 10) t"
  let ?c = "\<lambda>u. matcher (Group 2 (Alt (Chars (Lit 10)) EndOfInput))
                   (u, caps(Suc 0 \<mapsto> take (length t - length u) t)) Some"
  let ?z = "(drop (Suc 0) ?u, caps(Suc 0 \<mapsto> ?g, 2 \<mapsto> take (Suc 0) ?u))"
  have unfold: "matcher (Seq (Group (Suc 0) (Repeat AnyClass 0 False)) (Group 2 (Alt (Chars (Lit 10)) EndOfInput)))
     (t, caps) Some = repeat_matcher (\<lambda>_. True) 0 False t ?c"
    unfolding matcher.simps(4) matcher.simps(6)[of "Suc 0"] matcher.simps(3) class_matches_Any
    by (simp del: matcher.simps)
  have k: "length ?g \<le> length t" by (rule length_takeWhile_le)
  have drop_k: "drop (length ?g) t = ?u" by (metis append_eq_conv_conj takeWhile_dropWhile_id)
  have at_k: "?c (drop (length ?g) t) = Some ?z"
  proof -
    have "?u = [] \<or> hd ?u = 10" by (metis (mono_tags, lifting) hd_dropWhile)
    then show ?thesis
      unfolding drop_k take_length_dropWhile by (rule notes_end_Some)
  qed
  have before: "\<forall>j<length ?g. ?c (drop j t) = None"
  proof (intro allI impI)
    fix j assume "j < length ?g"
    then have "drop j t \<noteq> [] \<and> hd (drop j t) \<noteq> 10" by (rule drop_in_run)
    then show "?c (drop j t) = None" by (rule notes_end_None)
  qed
  have "repeat_matcher (\<lambda>_. True) 0 False t ?c = Some ?z"
    by (rule repeat_lazy_first[OF k _ at_k before]) simp
  then show ?thesis unfolding unfold .
qed

lemma match_here_Notes:
  "match_here re_Notes s =
     (if starts_with_ci (str ''notes'') s \<and> takeWhile isWhiteSpace (drop 5 s) \<noteq> []
      then Some (drop (Suc 0) (dropWhile (\<lambda>c. c \<noteq> 10) (dropWhile isWhiteSpace (drop 5 s))),
                 [Suc 0 \<mapsto> takeWhile (\<lambda>c. c \<noteq> 10) (dropWhile isWhiteSpace (drop 5 s)),
                  2 \<mapsto> take (Suc 0) (dropWhile (\<lambda>c. c \<noteq> 10) (dropWhile isWhiteSpace (drop 5 s)))])
      else None)"
proof -
  have len: "length ''notes'' = 5" by simp
  let ?s0 = "drop 5 s"
  let ?T = "Seq (Group (Suc 0) (Repeat AnyClass 0 False)) (Group 2 (Alt (Chars (Lit 10)) EndOfInput))"
  let ?c = "\<lambda>t. matcher ?T (t, Map.empty) Some"
  have "repeat_matcher isWhiteSpace (Suc 0) True ?s0 ?c =
     (if Suc 0 \<le> length (takeWhile isWhiteSpace ?s0) then ?c (dropWhile isWhiteSpace ?s0) else None)"
    by (rule repeat_greedy_commit) (simp only: notes_tail, simp)
  moreover have "Suc 0 \<le> length (takeWhile isWhiteSpace ?s0) \<longleftrightarrow> takeWhile isWhiteSpace ?s0 \<noteq> []"
    by (cases "takeWhile isWhiteSpace ?s0") auto
  ultimately have run: "repeat_matcher isWhiteSpace (Suc 0) True ?s0 ?c =
     (if takeWhile isWhiteSpace ?s0 \<noteq> [] then ?c (dropWhile isWhiteSpace ?s0) else None)"
    by simp
  have "match_here re_Notes s =
     (if starts_with_ci (str ''notes'') s then repeat_matcher isWhiteSpace (Suc 0) True ?s0 ?c else None)"
    unfolding re_Notes_def One_nat_def match_here_def matcher.simps(4)[of "literal ''notes''"]
      matcher.simps(4)[of "Repeat SpaceClass (Suc 0) True"] matcher_literal matcher.simps(3)
      class_matches_Space len
    by (simp del: matcher.simps)
  also have "\<dots> = (if starts_with_ci (str ''notes'') s \<and> takeWhile isWhiteSpace ?s0 \<noteq> []
       then ?c (dropWhile isWhiteSpace ?s0) else None)"
    unfolding run by simp
  finally show ?thesis unfolding notes_tail by simp
qed

section \<open>The patterns at an occurrence of their anchor\<close>

lemma run_split:
  assumes "\<forall>c\<in>set w. P c" "t = [] \<or> \<not> P (hd t)"
  shows "takeWhile P (w @ t) = w" and "dropWhile P (w @ t) = t"
proof -
  have t: "takeWhile P t = []" "dropWhile P t = t" using assms(2) by (cases t; auto)+
  show "takeWhile P (w @ t) = w" using assms(1) t by simp
  show "dropWhile P (w @ t) = t" using assms(1) t by simp
qed

lemma anchor_then_space:
  assumes "map Canonicalize anchor = map Canonicalize (str lit)"
    and "ws \<noteq> []" and "\<forall>c\<in>set ws. isWhiteSpace c"
    and "t = [] \<or> \<not> isWhiteSpace (hd t)"
  shows "starts_with_ci (str lit) (anchor @ ws @ t)"
    and "takeWhile isWhiteSpace (drop (length lit) (anchor @ ws @ t)) \<noteq> []"
    and "dropWhile isWhiteSpace (drop (length lit) (anchor @ ws @ t)) = t"
proof -
  have len: "length anchor = length lit"
    using assms(1) by (metis length_map str_def)
  show "starts_with_ci (str lit) (anchor @ ws @ t)"
    using assms(1) by (rule starts_with_ci_append)
  have d: "drop (length lit) (anchor @ ws @ t) = ws @ t" using len by simp
  show "takeWhile isWhiteSpace (drop (length lit) (anchor @ ws @ t)) \<noteq> []"
    unfolding d run_split(1)[OF assms(3,4)] by (rule assms(2))
  show "dropWhile isWhiteSpace (drop (length lit) (anchor @ ws @ t)) = t"
    unfolding d by (rule run_split(2)[OF assms(3,4)])
qed

lemma group1_Some: "g \<noteq> [] \<Longrightarrow> group1 (Some (rest, [1 \<mapsto> g])) = Some g"
  by (simp add: group1_def)

text \<open>Source Bank at an occurrence of the anchor that is followed by white space and a word.\<close>
lemma SourceBank_at:
  assumes a: "map Canonicalize anchor = map Canonicalize (str ''H2H'')"
    and ws: "ws \<noteq> []" "\<forall>c\<in>set ws. isWhiteSpace c"
    and word: "word \<noteq> []" "\<forall>c\<in>set word. isWordChar c"
    and post: "post = [] \<or> \<not> isWordChar (hd post)"
  shows "match_here re_SourceBank (anchor @ ws @ word @ post) = Some (post, [1 \<mapsto> word])"
proof -
  have hd: "word @ post = [] \<or> \<not> isWhiteSpace (hd (word @ post))"
    using word ws_not_word by (cases word) auto
  have len: "length ''H2H'' = 3" by simp
  note f = anchor_then_space[OF a ws hd, unfolded len]
  show ?thesis
    by (simp only: match_here_SourceBank f run_split[OF word(2) post] word(1) simp_thms if_True)
qed

lemma Total_at:
  assumes a: "map Canonicalize anchor = map Canonicalize (str ''Total'')"
    and ws: "ws \<noteq> []" "\<forall>c\<in>set ws. isWhiteSpace c"
    and word: "word \<noteq> []" "\<forall>c\<in>set word. isDigit c"
    and post: "post = [] \<or> \<not> isDigit (hd post)"
  shows "match_here re_Total (anchor @ ws @ word @ post) = Some (post, [1 \<mapsto> word])"
proof -
  have hd: "word @ post = [] \<or> \<not> isWhiteSpace (hd (word @ post))"
    using word ws_not_digit by (cases word) auto
  have len: "length ''Total'' = 5" by simp
  note f = anchor_then_space[OF a ws hd, unfolded len]
  show ?thesis
    by (simp only: match_here_Total f run_split[OF word(2) post] word(1) simp_thms if_True)
qed

lemma Notes_at:
  assumes a: "map Canonicalize anchor = map Canonicalize (str ''notes'')"
    and ws: "ws \<noteq> []" "\<forall>c\<in>set ws. isWhiteSpace c"
    and body: "body = [] \<or> \<not> isWhiteSpace (hd body)" "10 \<notin> set body"
    and post: "post = [] \<or> hd post = 10" "body = [] \<longrightarrow> post = []"
  shows "\<exists>y. match_here re_Notes (anchor @ ws @ body @ post) = Some y \<and> snd y 1 = Some body"
proof -
  have hd: "body @ post = [] \<or> \<not> isWhiteSpace (hd (body @ post))"
    using body(1) post(2) by (cases body) auto
  have len: "length ''notes'' = 5" by simp
  note f = anchor_then_space[OF a ws hd, unfolded len]
  have b: "\<forall>c\<in>set body. c \<noteq> 10" using body(2) by auto
  have p: "post = [] \<or> \<not> hd post \<noteq> 10" using post(1) by simp
  show ?thesis
    by (simp only: match_here_Notes f run_split[OF b p] simp_thms if_True One_nat_def
          snd_conv fun_upd_apply option.inject refl, simp)
qed

lemma extract_via_first:
  assumes "match_here r s = Some y"
    and "\<forall>j<length pre. match_here r (drop j (pre @ s)) = None"
  shows "exec r (pre @ s) = Some y"
proof (rule exec_first[of "length pre"])
  show "length pre \<le> length (pre @ s)" by simp
  show "match_here r (drop (length pre) (pre @ s)) = Some y" using assms(1) by simp
  show "\<forall>j<length pre. match_here r (drop j (pre @ s)) = None" by (rule assms(2))
qed

section \<open>Trimming and the first capture\<close>

lemma set_trim: "set (trim s) \<subseteq> set s"
proof -
  have "set (trim s) = set (dropWhile isWhiteSpace (rev (dropWhile isWhiteSpace s)))"
    by (simp add: trim_def)
  also have "\<dots> \<subseteq> set (rev (dropWhile isWhiteSpace s))" by (auto dest: set_dropWhileD)
  also have "\<dots> \<subseteq> set s" by (auto dest: set_dropWhileD)
  finally show ?thesis .
qed

lemma trim_nonempty: "s \<noteq> [] \<Longrightarrow> \<not> isWhiteSpace (hd s) \<Longrightarrow> trim s \<noteq> []"
proof -
  assume a: "s \<noteq> []" "\<not> isWhiteSpace (hd s)"
  have 1: "dropWhile isWhiteSpace s = s" using a by (cases s) auto
  have "hd s \<in> set (rev s)" using a by simp
  then have "\<exists>x\<in>set (rev s). \<not> isWhiteSpace x" using a by blast
  then have "dropWhile isWhiteSpace (rev s) \<noteq> []" by simp
  then show ?thesis unfolding trim_def 1 by simp
qed

lemma group1_Some1: "g \<noteq> [] \<Longrightarrow> snd y 1 = Some g \<Longrightarrow> group1 (Some y) = Some g"
  by (simp add: group1_def)

lemma group1_empty: "snd y 1 = Some [] \<Longrightarrow> group1 (Some y) = None"
  by (simp add: group1_def)

section \<open>Beneficiary Bank, and patterns that end in a literal\<close>

lemma space_then_literal:
  assumes nows: "\<And>u. u \<noteq> [] \<Longrightarrow> isWhiteSpace (hd u) \<Longrightarrow> \<not> starts_with_ci (str lit) u"
  shows "matcher (Seq (Repeat SpaceClass (Suc 0) True) (literal lit)) (u, caps) Some =
     (if takeWhile isWhiteSpace u \<noteq> [] \<and> starts_with_ci (str lit) (dropWhile isWhiteSpace u)
      then Some (drop (length lit) (dropWhile isWhiteSpace u), caps) else None)"
proof -
  let ?c = "\<lambda>v. matcher (literal lit) (v, caps) Some"
  have fail: "?c (drop k u) = None" if "Suc 0 \<le> k" "k < length (takeWhile isWhiteSpace u)" for k
  proof -
    have "drop k u \<noteq> [] \<and> isWhiteSpace (hd (drop k u))" using that(2) by (rule drop_in_run)
    then have "\<not> starts_with_ci (str lit) (drop k u)" using nows by blast
    then show ?thesis by (simp add: matcher_literal)
  qed
  have "repeat_matcher isWhiteSpace (Suc 0) True u ?c =
     (if Suc 0 \<le> length (takeWhile isWhiteSpace u) then ?c (dropWhile isWhiteSpace u) else None)"
    by (rule repeat_greedy) (use fail in blast)
  moreover have "Suc 0 \<le> length (takeWhile isWhiteSpace u) \<longleftrightarrow> takeWhile isWhiteSpace u \<noteq> []"
    by (cases "takeWhile isWhiteSpace u") auto
  ultimately have run: "repeat_matcher isWhiteSpace (Suc 0) True u ?c =
     (if takeWhile isWhiteSpace u \<noteq> [] then ?c (dropWhile isWhiteSpace u) else None)"
    by simp
  have "matcher (Seq (Repeat SpaceClass (Suc 0) True) (literal lit)) (u, caps) Some =
     repeat_matcher isWhiteSpace (Suc 0) True u ?c"
    unfolding matcher.simps(4) matcher.simps(3) class_matches_Space by simp
  then show ?thesis unfolding run by (simp add: matcher_literal)
qed

lemma space_not_Total:
  "u \<noteq> [] \<Longrightarrow> isWhiteSpace (hd u) \<Longrightarrow> \<not> starts_with_ci (str ''Total'') u"
  by (cases u) (auto simp: str_def starts_with_ci_Cons isWhiteSpace_def Canonicalize_def)

lemma match_here_Beneficiary:
  "match_here re_BeneficiaryBank s =
     (if starts_with_ci (str ''to'') s
      then repeat_matcher isWhiteSpace (Suc 0) True (drop 2 s) after_to else None)"
proof -
  have len: "length ''to'' = 2" by simp
  show ?thesis
    unfolding re_BeneficiaryBank_def One_nat_def match_here_def after_to_def
      matcher.simps(4)[of "literal ''to''"] matcher.simps(4)[of "Repeat SpaceClass (Suc 0) True" "Seq _ _"]
      matcher_literal matcher.simps(3) class_matches_Space len
    by (simp del: matcher.simps)
qed

lemma after_to_capture:
  assumes "after_to t = Some y"
  shows "\<exists>j\<le>length t. snd y 1 = Some (take j t)
           \<and> takeWhile isWhiteSpace (drop j t) \<noteq> []
           \<and> starts_with_ci (str ''Total'') (dropWhile isWhiteSpace (drop j t))
           \<and> (\<forall>i<j. \<not> (takeWhile isWhiteSpace (drop i t) \<noteq> []
                  \<and> starts_with_ci (str ''Total'') (dropWhile isWhiteSpace (drop i t))))"
proof -
  let ?A = "\<lambda>u. takeWhile isWhiteSpace u \<noteq> [] \<and> starts_with_ci (str ''Total'') (dropWhile isWhiteSpace u)"
  let ?c = "\<lambda>u. matcher (Seq (Repeat SpaceClass (Suc 0) True) (literal ''Total''))
                  (u, [Suc 0 \<mapsto> take (length t - length u) t]) Some"
  have c: "?c u = (if ?A u then Some (drop (length ''Total'') (dropWhile isWhiteSpace u),
                      [Suc 0 \<mapsto> take (length t - length u) t]) else None)" for u
    by (rule space_then_literal) (rule space_not_Total)
  have "after_to t = repeat_matcher (\<lambda>_. True) 0 False t ?c"
    unfolding after_to_def matcher.simps(4)[of "Group _ _"] matcher.simps(6) matcher.simps(3)[of AnyClass]
      class_matches_Any
    by (simp del: matcher.simps)
  then have "repeat_matcher (\<lambda>_. True) 0 False t ?c = Some y" using assms by simp
  from repeat_lazy_sound[OF this] obtain j where j: "j \<le> length t" "?c (drop j t) = Some y"
    "\<forall>i<j. ?c (drop i t) = None" by blast
  have A: "?A (drop j t)" using j(2) unfolding c by (simp split: if_splits)
  have y: "snd y 1 = Some (take j t)"
    using j(1,2) A unfolding c by (auto split: if_splits)
  have "\<forall>i<j. \<not> ?A (drop i t)"
  proof (intro allI impI)
    fix i assume "i < j"
    then have "?c (drop i t) = None" using j(3) by blast
    then show "\<not> ?A (drop i t)" unfolding c by (simp split: if_splits)
  qed
  then show ?thesis using j(1) y A by blast
qed

lemma Beneficiary_capture:
  assumes "match_here re_BeneficiaryBank s = Some y" "snd y 1 = Some g" "g \<noteq> []"
  shows "\<exists>a\<in>set g. \<not> isWhiteSpace a"
proof (rule ccontr)
  assume "\<not> (\<exists>a\<in>set g. \<not> isWhiteSpace a)"
  then have ws: "\<forall>a\<in>set g. isWhiteSpace a" by blast
  from assms(1) have "repeat_matcher isWhiteSpace (Suc 0) True (drop 2 s) after_to = Some y"
    unfolding match_here_Beneficiary by (simp split: if_splits)
  from repeat_sound[OF this] obtain k where "after_to (drop k (drop 2 s)) = Some y" by blast
  from after_to_capture[OF this] obtain j where j: "j \<le> length (drop k (drop 2 s))"
    "snd y 1 = Some (take j (drop k (drop 2 s)))"
    "\<forall>i<j. \<not> (takeWhile isWhiteSpace (drop i (drop k (drop 2 s))) \<noteq> []
                  \<and> starts_with_ci (str ''Total'') (dropWhile isWhiteSpace (drop i (drop k (drop 2 s)))))"
    "takeWhile isWhiteSpace (drop j (drop k (drop 2 s))) \<noteq> []"
    "starts_with_ci (str ''Total'') (dropWhile isWhiteSpace (drop j (drop k (drop 2 s))))"
    by blast
  define t where "t = drop k (drop 2 s)"
  have g: "g = take j t" using j(2) assms(2) unfolding t_def by simp
  then have j0: "0 < j" using assms(3) by (cases j) auto
  have split: "t = g @ drop j t" unfolding g by simp
  have "takeWhile isWhiteSpace (g @ drop j t) \<noteq> []"
    using assms(3) ws by (cases g) auto
  moreover have "dropWhile isWhiteSpace (g @ drop j t) = dropWhile isWhiteSpace (drop j t)"
    using ws by simp
  ultimately have "takeWhile isWhiteSpace t \<noteq> []
      \<and> starts_with_ci (str ''Total'') (dropWhile isWhiteSpace t)"
    using j(5) split unfolding t_def[symmetric] by metis
  moreover have "\<not> (takeWhile isWhiteSpace (drop 0 t) \<noteq> []
           \<and> starts_with_ci (str ''Total'') (dropWhile isWhiteSpace (drop 0 t)))"
    using j(3) j0 unfolding t_def[symmetric] by blast
  ultimately show False by simp
qed

lemma trim_keeps_text:
  assumes "\<exists>a\<in>set s. \<not> isWhiteSpace a"
  shows "trim s \<noteq> []"
proof -
  from assms obtain a where a: "a \<in> set s" "\<not> isWhiteSpace a" by blast
  have "set s = set (takeWhile isWhiteSpace s) \<union> set (dropWhile isWhiteSpace s)"
    by (metis set_append takeWhile_dropWhile_id)
  moreover have "a \<notin> set (takeWhile isWhiteSpace s)" using a(2) by (auto dest: set_takeWhileD)
  ultimately have "a \<in> set (rev (dropWhile isWhiteSpace s))" using a(1) by simp
  then have "\<exists>x\<in>set (rev (dropWhile isWhiteSpace s)). \<not> isWhiteSpace x" using a(2) by blast
  then have "dropWhile isWhiteSpace (rev (dropWhile isWhiteSpace s)) \<noteq> []" by simp
  then show ?thesis unfolding trim_def by simp
qed

text \<open>A match of a pattern that ends in a literal ends at an occurrence of the literal.\<close>

lemma matcher_ends_in_literal:
  assumes "matcher (Seq r (literal lit)) x Some = Some z"
  shows "\<exists>k\<le>length (fst x). starts_with_ci (str lit) (drop k (fst x))"
proof -
  from assms have "matcher r x (\<lambda>y. matcher (literal lit) y Some) = Some z" by simp
  from matcher_suffix[OF this] obtain y k where y: "matcher (literal lit) y Some = Some z"
    "k \<le> length (fst x)" "fst y = drop k (fst x)" by blast
  from y(1) have "starts_with_ci (str lit) (fst y)"
    unfolding matcher_literal by (simp split: if_splits)
  then show ?thesis using y(2,3) by auto
qed

lemma occurs_ci_drop: "occurs_ci lit (drop i s) \<Longrightarrow> occurs_ci lit s"
proof -
  assume "occurs_ci lit (drop i s)"
  then obtain k where k: "k \<le> length (drop i s)" "starts_with_ci lit (drop k (drop i s))"
    unfolding occurs_ci_iff by blast
  show ?thesis
  proof (cases "i \<le> length s")
    case True
    then have "k + i \<le> length s" using k(1) by simp
    moreover have "starts_with_ci lit (drop (k + i) s)" using k(2) by simp
    ultimately show ?thesis unfolding occurs_ci_iff by blast
  next
    case False
    then have "drop i s = drop (length s) s" by simp
    then have "starts_with_ci lit (drop (length s) s)" using k by simp
    then show ?thesis unfolding occurs_ci_iff by blast
  qed
qed

lemma exec_occurs:
  assumes "\<And>s y. match_here r s = Some y \<Longrightarrow> occurs_ci lit s"
    and "\<not> occurs_ci lit m"
  shows "exec r m = None"
proof (rule exec_None, intro allI impI)
  fix i assume "i \<le> length m"
  show "match_here r (drop i m) = None"
  proof (rule ccontr)
    assume "match_here r (drop i m) \<noteq> None"
    then obtain y where "match_here r (drop i m) = Some y" by auto
    then have "occurs_ci lit (drop i m)" by (rule assms(1))
    then show False using assms(2) occurs_ci_drop by blast
  qed
qed

lemma starts_occurs: "starts_with_ci lit s \<Longrightarrow> occurs_ci lit s"
  unfolding occurs_ci_iff by (intro exI[of _ 0]) simp

lemma SourceBank_needs_anchor: "match_here re_SourceBank s = Some y \<Longrightarrow> occurs_ci (str ''H2H'') s"
  unfolding match_here_SourceBank by (simp split: if_splits add: starts_occurs)

lemma Total_needs_anchor: "match_here re_Total s = Some y \<Longrightarrow> occurs_ci (str ''Total'') s"
  unfolding match_here_Total by (simp split: if_splits add: starts_occurs)

lemma Notes_needs_anchor: "match_here re_Notes s = Some y \<Longrightarrow> occurs_ci (str ''notes'') s"
  unfolding match_here_Notes by (simp split: if_splits add: starts_occurs)

lemma Beneficiary_needs_to: "match_here re_BeneficiaryBank s = Some y \<Longrightarrow> occurs_ci (str ''to'') s"
  unfolding match_here_Beneficiary by (simp split: if_splits add: starts_occurs)

lemma Beneficiary_needs_Total:
  assumes "match_here re_BeneficiaryBank s = Some y"
  shows "occurs_ci (str ''Total'') s"
proof -
  from assms have "matcher (literal ''to'') (s, Map.empty)
      (\<lambda>y. matcher (Repeat SpaceClass 1 True) y
        (\<lambda>y. matcher (Group 1 (Repeat AnyClass 0 False)) y
          (\<lambda>y. matcher (Seq (Repeat SpaceClass 1 True) (literal ''Total'')) y Some))) = Some y"
    unfolding match_here_def re_BeneficiaryBank_def by (simp only: matcher.simps(4))
  from matcher_suffix[OF this] obtain y1 k1 where 1: "matcher (Repeat SpaceClass 1 True) y1
        (\<lambda>y. matcher (Group 1 (Repeat AnyClass 0 False)) y
          (\<lambda>y. matcher (Seq (Repeat SpaceClass 1 True) (literal ''Total'')) y Some)) = Some y"
    "k1 \<le> length s" "fst y1 = drop k1 s" by auto
  from matcher_suffix[OF 1(1)] obtain y2 k2 where 2: "matcher (Group 1 (Repeat AnyClass 0 False)) y2
          (\<lambda>y. matcher (Seq (Repeat SpaceClass 1 True) (literal ''Total'')) y Some) = Some y"
    "k2 \<le> length (fst y1)" "fst y2 = drop k2 (fst y1)" by auto
  from matcher_suffix[OF 2(1)] obtain y3 k3 where 3:
    "matcher (Seq (Repeat SpaceClass 1 True) (literal ''Total'')) y3 Some = Some y"
    "k3 \<le> length (fst y2)" "fst y3 = drop k3 (fst y2)" by auto
  from matcher_ends_in_literal[OF 3(1)] obtain k4 where 4: "k4 \<le> length (fst y3)"
    "starts_with_ci (str ''Total'') (drop k4 (fst y3))" by blast
  have "occurs_ci (str ''Total'') (fst y3)" using 4 unfolding occurs_ci_iff by blast
  then have "occurs_ci (str ''Total'') (fst y2)" unfolding 3(3) by (rule occurs_ci_drop)
  then have "occurs_ci (str ''Total'') (fst y1)" unfolding 2(3) by (rule occurs_ci_drop)
  then show ?thesis unfolding 1(3) by (rule occurs_ci_drop)
qed

lemma FFB_needs_anchor:
  assumes "match_here re_FFB s = Some y"
  shows "occurs_ci (str ''ffb'') s"
proof -
  from assms have "matcher (Group 1 (Repeat DigitClass 1 True)) (s, Map.empty)
      (\<lambda>y. matcher (Seq (Repeat SpaceClass 1 True) (literal ''ffb'')) y Some) = Some y"
    unfolding match_here_def re_FFB_def by (simp only: matcher.simps(4))
  from matcher_suffix[OF this] obtain y1 k1 where 1:
    "matcher (Seq (Repeat SpaceClass 1 True) (literal ''ffb'')) y1 Some = Some y"
    "k1 \<le> length s" "fst y1 = drop k1 s" by auto
  from matcher_ends_in_literal[OF 1(1)] obtain k4 where 4: "k4 \<le> length (fst y1)"
    "starts_with_ci (str ''ffb'') (drop k4 (fst y1))" by blast
  have "occurs_ci (str ''ffb'') (fst y1)" using 4 unfolding occurs_ci_iff by blast
  then show ?thesis unfolding 1(3) by (rule occurs_ci_drop)
qed

section \<open>FFB and Beneficiary Bank at an occurrence of their anchors\<close>

lemma trim_unchanged:
  assumes "s \<noteq> []" "\<not> isWhiteSpace (hd s)" "\<not> isWhiteSpace (last s)"
  shows "trim s = s"
proof -
  have 1: "dropWhile isWhiteSpace s = s" using assms(1,2) by (cases s) auto
  have "rev s \<noteq> []" "\<not> isWhiteSpace (hd (rev s))" using assms(1,3) by (simp_all add: hd_rev)
  then have 2: "dropWhile isWhiteSpace (rev s) = rev s" by (cases "rev s") auto
  show ?thesis unfolding trim_def 1 2 by simp
qed

lemma space_not_ffb:
  "u \<noteq> [] \<Longrightarrow> isWhiteSpace (hd u) \<Longrightarrow> \<not> starts_with_ci (str ''ffb'') u"
  by (cases u) (auto simp: str_def starts_with_ci_Cons isWhiteSpace_def Canonicalize_def)

text \<open>White space and then a literal that does not begin with white space.\<close>

lemma space_literal_at:
  assumes nows: "\<And>u. u \<noteq> [] \<Longrightarrow> isWhiteSpace (hd u) \<Longrightarrow> \<not> starts_with_ci (str lit) u"
    and a: "map Canonicalize anchor = map Canonicalize (str lit)"
    and ws: "ws \<noteq> []" "\<forall>c\<in>set ws. isWhiteSpace c"
  shows "takeWhile isWhiteSpace (ws @ anchor @ post) \<noteq> []
     \<and> starts_with_ci (str lit) (dropWhile isWhiteSpace (ws @ anchor @ post))"
proof -
  have st: "starts_with_ci (str lit) (anchor @ post)" using a by (rule starts_with_ci_append)
  have "anchor @ post = [] \<or> \<not> isWhiteSpace (hd (anchor @ post))"
    using nows[of "anchor @ post"] st by blast
  note r = run_split[OF ws(2) this]
  show ?thesis unfolding r using ws(1) st by simp
qed

lemma FFB_at:
  assumes a: "map Canonicalize anchor = map Canonicalize (str ''ffb'')"
    and digits: "digits \<noteq> []" "\<forall>c\<in>set digits. isDigit c"
    and ws: "ws \<noteq> []" "\<forall>c\<in>set ws. isWhiteSpace c"
  shows "\<exists>y. match_here re_FFB (digits @ ws @ anchor @ post) = Some y \<and> snd y 1 = Some digits"
proof -
  let ?s = "digits @ ws @ anchor @ post"
  let ?A = "\<lambda>u. takeWhile isWhiteSpace u \<noteq> [] \<and> starts_with_ci (str ''ffb'') (dropWhile isWhiteSpace u)"
  let ?c = "\<lambda>u. matcher (Seq (Repeat SpaceClass (Suc 0) True) (literal ''ffb''))
                  (u, [Suc 0 \<mapsto> take (length ?s - length u) ?s]) Some"
  have c: "?c u = (if ?A u then Some (drop (length ''ffb'') (dropWhile isWhiteSpace u),
                      [Suc 0 \<mapsto> take (length ?s - length u) ?s]) else None)" for u
    by (rule space_then_literal) (rule space_not_ffb)
  have unfold: "match_here re_FFB ?s = repeat_matcher isDigit (Suc 0) True ?s ?c"
    unfolding re_FFB_def One_nat_def match_here_def matcher.simps(4)[of "Group _ _"]
      matcher.simps(6) matcher.simps(3)[of DigitClass] class_matches_Digit
    by (simp del: matcher.simps)
  have hdws: "ws @ anchor @ post = [] \<or> \<not> isDigit (hd (ws @ anchor @ post))"
    using ws ws_not_digit by (cases ws) auto
  note run = run_split[OF digits(2) hdws]
  have A: "?A (ws @ anchor @ post)"
    using space_not_ffb a ws by (rule space_literal_at)
  have deep: "?c (dropWhile isDigit ?s) \<noteq> None" unfolding run c using A by simp
  have "repeat_matcher isDigit (Suc 0) True ?s ?c =
     (if Suc 0 \<le> length (takeWhile isDigit ?s) then ?c (dropWhile isDigit ?s) else None)"
    using deep by (rule repeat_greedy_commit)
  moreover have "Suc 0 \<le> length digits" using digits(1) by (cases digits) auto
  ultimately have "match_here re_FFB ?s = ?c (ws @ anchor @ post)"
    unfolding unfold run by simp
  then show ?thesis unfolding c using A by simp
qed

lemma after_to_lazy:
  "after_to t = repeat_matcher (\<lambda>_. True) 0 False t
     (\<lambda>u. if takeWhile isWhiteSpace u \<noteq> [] \<and> starts_with_ci (str ''Total'') (dropWhile isWhiteSpace u)
          then Some (drop (length ''Total'') (dropWhile isWhiteSpace u),
                     [Suc 0 \<mapsto> take (length t - length u) t])
          else None)"
proof -
  let ?c = "\<lambda>u. matcher (Seq (Repeat SpaceClass (Suc 0) True) (literal ''Total''))
                  (u, [Suc 0 \<mapsto> take (length t - length u) t]) Some"
  have c: "?c = (\<lambda>u. if takeWhile isWhiteSpace u \<noteq> [] \<and> starts_with_ci (str ''Total'') (dropWhile isWhiteSpace u)
          then Some (drop (length ''Total'') (dropWhile isWhiteSpace u),
                     [Suc 0 \<mapsto> take (length t - length u) t])
          else None)"
    by (rule ext, rule space_then_literal) (rule space_not_Total)
  have "after_to t = repeat_matcher (\<lambda>_. True) 0 False t ?c"
    unfolding after_to_def matcher.simps(4)[of "Group _ _"] matcher.simps(6) matcher.simps(3)[of AnyClass]
      class_matches_Any
    by (simp del: matcher.simps)
  then show ?thesis unfolding c .
qed

lemma after_to_at:
  assumes k: "k \<le> length t"
    and A: "takeWhile isWhiteSpace (drop k t) \<noteq> []"
         "starts_with_ci (str ''Total'') (dropWhile isWhiteSpace (drop k t))"
    and before: "\<forall>j<k. \<not> (takeWhile isWhiteSpace (drop j t) \<noteq> []
                  \<and> starts_with_ci (str ''Total'') (dropWhile isWhiteSpace (drop j t)))"
  shows "\<exists>y. after_to t = Some y \<and> snd y 1 = Some (take k t)"
proof -
  let ?c = "\<lambda>u. if takeWhile isWhiteSpace u \<noteq> [] \<and> starts_with_ci (str ''Total'') (dropWhile isWhiteSpace u)
          then Some (drop (length ''Total'') (dropWhile isWhiteSpace u),
                     [Suc 0 \<mapsto> take (length t - length u) t])
          else None"
  let ?y = "(drop (length ''Total'') (dropWhile isWhiteSpace (drop k t)), [Suc 0 \<mapsto> take k t])"
  have at: "?c (drop k t) = Some ?y" using A k by simp
  have bef: "\<forall>j<k. ?c (drop j t) = None" using before by auto
  have "repeat_matcher (\<lambda>_. True) 0 False t ?c = Some ?y"
    by (rule repeat_lazy_first[OF k _ at bef]) simp
  then have "after_to t = Some ?y" unfolding after_to_lazy .
  then show ?thesis by simp
qed

text \<open>No white space followed by \<open>Total\<close> begins inside a field that does not hold \<open>Total\<close>.\<close>

lemma no_Total_inside:
  assumes last: "body \<noteq> []" "\<not> isWhiteSpace (last body)"
    and no: "\<forall>p<length body. \<not> starts_with_ci (str ''Total'') (drop p (body @ rest))"
    and j: "j < length body"
  shows "\<not> (takeWhile isWhiteSpace (drop j (body @ rest)) \<noteq> []
          \<and> starts_with_ci (str ''Total'') (dropWhile isWhiteSpace (drop j (body @ rest))))"
proof
  assume A: "takeWhile isWhiteSpace (drop j (body @ rest)) \<noteq> []
          \<and> starts_with_ci (str ''Total'') (dropWhile isWhiteSpace (drop j (body @ rest)))"
  have d: "drop j (body @ rest) = drop j body @ rest" using j by simp
  have ne: "drop j body \<noteq> []" using j by simp
  have "last (drop j body) = last body" using j by simp
  then have "last body \<in> set (drop j body)" using ne by (metis last_in_set)
  then obtain x where x: "x \<in> set (drop j body)" "\<not> isWhiteSpace x" using last(2) by blast
  have dw: "dropWhile isWhiteSpace (drop j body @ rest) = dropWhile isWhiteSpace (drop j body) @ rest"
    using x by (rule dropWhile_append1)
  have "dropWhile isWhiteSpace (drop j body) \<noteq> []" using x by auto
  define p where "p = j + length (takeWhile isWhiteSpace (drop j body))"
  have dp: "dropWhile isWhiteSpace (drop j body) = drop p body"
    unfolding p_def by (simp add: dropWhile_eq_drop add.commute)
  have "p < length body"
  proof (rule ccontr)
    assume "\<not> p < length body"
    then have "drop p body = []" by simp
    then show False using dp \<open>dropWhile isWhiteSpace (drop j body) \<noteq> []\<close> by simp
  qed
  then have "\<not> starts_with_ci (str ''Total'') (drop p (body @ rest))" using no by blast
  moreover have "drop p (body @ rest) = drop p body @ rest" using \<open>p < length body\<close> by simp
  ultimately show False using A unfolding d dw dp by simp
qed

lemma Beneficiary_at:
  assumes a: "map Canonicalize anchor = map Canonicalize (str ''to'')"
    and ws1: "ws \<noteq> []" "\<forall>c\<in>set ws. isWhiteSpace c"
    and body: "body \<noteq> []" "\<not> isWhiteSpace (hd body)" "\<not> isWhiteSpace (last body)"
    and no: "\<forall>p<length body. \<not> starts_with_ci (str ''Total'') (drop p (body @ ws' @ anchor' @ post))"
    and ws': "ws' \<noteq> []" "\<forall>c\<in>set ws'. isWhiteSpace c"
    and anchor': "map Canonicalize anchor' = map Canonicalize (str ''Total'')"
  shows "\<exists>y. match_here re_BeneficiaryBank (anchor @ ws @ body @ ws' @ anchor' @ post) = Some y
            \<and> snd y 1 = Some body"
proof -
  let ?t = "body @ ws' @ anchor' @ post"
  have hd: "?t = [] \<or> \<not> isWhiteSpace (hd ?t)" using body(1,2) by (cases body) auto
  have len: "length ''to'' = 2" by simp
  note f = anchor_then_space[OF a ws1 hd, unfolded len]
  have A: "takeWhile isWhiteSpace (ws' @ anchor' @ post) \<noteq> []
     \<and> starts_with_ci (str ''Total'') (dropWhile isWhiteSpace (ws' @ anchor' @ post))"
    using space_not_Total anchor' ws' by (rule space_literal_at)
  have k: "length body \<le> length ?t" by simp
  have dk: "drop (length body) ?t = ws' @ anchor' @ post" by simp
  have before: "\<forall>j<length body. \<not> (takeWhile isWhiteSpace (drop j ?t) \<noteq> []
                  \<and> starts_with_ci (str ''Total'') (dropWhile isWhiteSpace (drop j ?t)))"
    using no_Total_inside[OF body(1,3) no] by blast
  have "\<exists>y. after_to ?t = Some y \<and> snd y 1 = Some (take (length body) ?t)"
  proof (rule after_to_at[OF k _ _ before])
    show "takeWhile isWhiteSpace (drop (length body) ?t) \<noteq> []"
      unfolding dk using A by blast
    show "starts_with_ci (str ''Total'') (dropWhile isWhiteSpace (drop (length body) ?t))"
      unfolding dk using A by blast
  qed
  then obtain y where y: "after_to ?t = Some y" "snd y 1 = Some body" by auto
  have deep: "after_to (dropWhile isWhiteSpace (drop 2 (anchor @ ws @ ?t))) \<noteq> None"
    unfolding f(3) using y(1) by simp
  have "repeat_matcher isWhiteSpace (Suc 0) True (drop 2 (anchor @ ws @ ?t)) after_to =
     (if Suc 0 \<le> length (takeWhile isWhiteSpace (drop 2 (anchor @ ws @ ?t)))
      then after_to (dropWhile isWhiteSpace (drop 2 (anchor @ ws @ ?t))) else None)"
    using deep by (rule repeat_greedy_commit)
  moreover have "Suc 0 \<le> length (takeWhile isWhiteSpace (drop 2 (anchor @ ws @ ?t)))"
    using f(2) by (cases "takeWhile isWhiteSpace (drop 2 (anchor @ ws @ ?t))") auto
  ultimately have "match_here re_BeneficiaryBank (anchor @ ws @ ?t) = after_to ?t"
    unfolding match_here_Beneficiary f(3) using f(1) by simp
  then show ?thesis using y by simp
qed

section \<open>Evaluation of the model\<close>

lemmas extract_eval =
  str_def NA_def group1_def match_here_def isWhiteSpace_def isDigit_def isWordChar_def
  Canonicalize_def trim_def re_SourceBank_def re_BeneficiaryBank_def re_Total_def
  re_FFB_def re_Notes_def extractSourceBank_def extractBeneficiaryBank_def
  extractTotal_def extractFFB_def extractNotes_def

lemmas class_eval =
  str_def Canonicalize_def isWhiteSpace_def isWordChar_def isDigit_def starts_with_ci_def

section \<open>The end-to-end scenario\<close>

text \<open>
  C2: on the message \<open>H2H BRI to BCA Total 9000 (5 ffb) notes Insufficient balance\<close>
  the five extractors return \<open>BRI\<close>, \<open>BCA\<close>, \<open>9000\<close>, \<open>5\<close> and
  \<open>Insufficient balance\<close>.
\<close>

theorem scenario_extraction:
  "extractSourceBank (str ''H2H BRI to BCA Total 9000 (5 ffb) notes Insufficient balance'') = str ''BRI''
   \<and> extractBeneficiaryBank (str ''H2H BRI to BCA Total 9000 (5 ffb) notes Insufficient balance'') = str ''BCA''
   \<and> extractTotal (str ''H2H BRI to BCA Total 9000 (5 ffb) notes Insufficient balance'') = str ''9000''
   \<and> extractFFB (str ''H2H BRI to BCA Total 9000 (5 ffb) notes Insufficient balance'') = str ''5''
   \<and> extractNotes (str ''H2H BRI to BCA Total 9000 (5 ffb) notes Insufficient balance'') = str ''Insufficient balance''"
  by (simp add: extract_eval)

section \<open>Source Bank\<close>

text \<open>
  C8: when \<open>H2H\<close> (compared without regard to case) is followed by white space and
  then a word, and the pattern matches at no earlier index, \<open>extractSourceBank\<close> returns
  that word as it stands: the word behind the first \<open>H2H\<close> that has one. The word is the
  whole run of word characters: what follows it is the end of the message or a character
  that is not a word character. An earlier \<open>H2H\<close> without a word behind it is passed over.
\<close>

theorem source_bank_first_word:
  assumes "message = pre @ anchor @ ws @ word @ post"
    and "map Canonicalize anchor = map Canonicalize (str ''H2H'')"
    and "\<forall>i<length pre. match_here re_SourceBank (drop i message) = None"
    and "ws \<noteq> []" and "\<forall>c\<in>set ws. isWhiteSpace c"
    and "word \<noteq> []" and "\<forall>c\<in>set word. isWordChar c"
    and "post = [] \<or> \<not> isWordChar (hd post)"
  shows "extractSourceBank message = word"
proof -
  have here: "match_here re_SourceBank (anchor @ ws @ word @ post) = Some (post, [1 \<mapsto> word])"
    using assms(2,4-8) by (rule SourceBank_at)
  have "\<forall>j<length pre. match_here re_SourceBank (drop j (pre @ anchor @ ws @ word @ post)) = None"
    using assms(3) unfolding assms(1) .
  from extract_via_first[OF here this]
  have "exec re_SourceBank message = Some (post, [1 \<mapsto> word])" unfolding assms(1) .
  then show ?thesis
    unfolding extractSourceBank_def using group1_Some[OF assms(6)] by simp
qed

theorem source_bank_first_word_witness:
  "extractSourceBank (str ''H2H-x '' @ str ''h2h'' @ str '' '' @ str ''BRI'' @ str '', to BCA'') = str ''BRI''
   \<and> extractSourceBank (str ''H2'' @ str ''H2H'' @ str '' '' @ str ''BRI'' @ []) = str ''BRI''"
proof
  show "extractSourceBank (str ''H2H-x '' @ str ''h2h'' @ str '' '' @ str ''BRI'' @ str '', to BCA'')
      = str ''BRI''"
  proof (rule source_bank_first_word[where pre = "str ''H2H-x ''" and ws = "str '' ''"
        and post = "str '', to BCA''" and anchor = "str ''h2h''"])
    show "\<forall>i<length (str ''H2H-x ''). match_here re_SourceBank
       (drop i (str ''H2H-x '' @ str ''h2h'' @ str '' '' @ str ''BRI'' @ str '', to BCA'')) = None"
      by (simp add: class_eval match_here_SourceBank All_less_Suc)
  qed (simp_all add: class_eval)
  show "extractSourceBank (str ''H2'' @ str ''H2H'' @ str '' '' @ str ''BRI'' @ []) = str ''BRI''"
  proof (rule source_bank_first_word[where pre = "str ''H2''" and ws = "str '' ''"
        and post = "[]" and anchor = "str ''H2H''"])
    show "\<forall>i<length (str ''H2''). match_here re_SourceBank
       (drop i (str ''H2'' @ str ''H2H'' @ str '' '' @ str ''BRI'' @ [])) = None"
      by (simp add: class_eval match_here_SourceBank All_less_Suc)
  qed (simp_all add: class_eval)
qed

section \<open>Anchors inside longer words\<close>

lemma Total_inside_Subtotal:
  assumes msg: "message = pre @ str ''Subtotal'' @ ws @ digits @ post"
    and ws: "ws \<noteq> []" "\<forall>c\<in>set ws. isWhiteSpace c"
    and digits: "digits \<noteq> []" "\<forall>c\<in>set digits. isDigit c"
    and post: "post = [] \<or> \<not> isDigit (hd post)"
    and first: "\<forall>i<length pre + 3. match_here re_Total (drop i message) = None"
  shows "extractTotal message = digits"
proof -
  have anchor: "map Canonicalize (str ''total'') = map Canonicalize (str ''Total'')"
    by (simp add: class_eval)
  have here: "match_here re_Total (str ''total'' @ ws @ digits @ post) = Some (post, [1 \<mapsto> digits])"
    using anchor ws digits post by (rule Total_at)
  have msg': "message = (pre @ str ''Sub'') @ str ''total'' @ ws @ digits @ post"
    unfolding msg by (simp add: str_def)
  have len: "length (pre @ str ''Sub'') = length pre + 3" by (simp add: str_def)
  have "\<forall>j<length (pre @ str ''Sub''). match_here re_Total
           (drop j ((pre @ str ''Sub'') @ str ''total'' @ ws @ digits @ post)) = None"
    unfolding msg'[symmetric] len by (rule first)
  from extract_via_first[OF here this]
  have "exec re_Total message = Some (post, [1 \<mapsto> digits])" unfolding msg' .
  then show ?thesis
    unfolding extractTotal_def using group1_Some[OF digits(1)] by simp
qed

lemma SourceBank_inside_word:
  assumes msg: "message = pre @ anchor @ ws @ word @ post"
    and anchor: "map Canonicalize anchor = map Canonicalize (str ''H2H'')"
    and ws: "ws \<noteq> []" "\<forall>c\<in>set ws. isWhiteSpace c"
    and word: "word \<noteq> []" "\<forall>c\<in>set word. isWordChar c"
    and post: "post = [] \<or> \<not> isWordChar (hd post)"
    and first: "\<forall>i<length pre. match_here re_SourceBank (drop i message) = None"
  shows "extractSourceBank message = word"
proof -
  have here: "match_here re_SourceBank (anchor @ ws @ word @ post) = Some (post, [1 \<mapsto> word])"
    using anchor ws word post by (rule SourceBank_at)
  have "\<forall>j<length pre. match_here re_SourceBank (drop j (pre @ anchor @ ws @ word @ post)) = None"
    unfolding msg[symmetric] by (rule first)
  from extract_via_first[OF here this]
  have "exec re_SourceBank message = Some (post, [1 \<mapsto> word])" unfolding msg .
  then show ?thesis
    unfolding extractSourceBank_def using group1_Some[OF word(1)] by simp
qed

lemma Notes_inside_word:
  assumes msg: "message = pre @ anchor @ ws @ body @ post"
    and anchor: "map Canonicalize anchor = map Canonicalize (str ''notes'')"
    and ws: "ws \<noteq> []" "\<forall>c\<in>set ws. isWhiteSpace c"
    and body: "body = [] \<or> \<not> isWhiteSpace (hd body)" "10 \<notin> set body"
    and post: "post = [] \<or> hd post = 10" "body = [] \<longrightarrow> post = []"
    and first: "\<forall>i<length pre. match_here re_Notes (drop i message) = None"
  shows "extractNotes message = (if body = [] then NA else trim body)"
proof -
  have "\<exists>y. match_here re_Notes (anchor @ ws @ body @ post) = Some y \<and> snd y 1 = Some body"
    using anchor ws body post by (rule Notes_at)
  then obtain y where here: "match_here re_Notes (anchor @ ws @ body @ post) = Some y"
    and y: "snd y 1 = Some body" by blast
  have "\<forall>j<length pre. match_here re_Notes (drop j (pre @ anchor @ ws @ body @ post)) = None"
    unfolding msg[symmetric] by (rule first)
  from extract_via_first[OF here this]
  have ex: "exec re_Notes message = Some y" unfolding msg .
  show ?thesis
  proof (cases "body = []")
    case True
    then show ?thesis unfolding extractNotes_def ex using group1_empty[of y] y by simp
  next
    case False
    then show ?thesis unfolding extractNotes_def ex using group1_Some1[OF False y] by simp
  qed
qed

lemma FFB_inside_word:
  assumes msg: "message = pre @ digits @ ws @ anchor @ post"
    and anchor: "map Canonicalize anchor = map Canonicalize (str ''ffb'')"
    and digits: "digits \<noteq> []" "\<forall>c\<in>set digits. isDigit c"
    and ws: "ws \<noteq> []" "\<forall>c\<in>set ws. isWhiteSpace c"
    and first: "\<forall>i<length pre. match_here re_FFB (drop i message) = None"
  shows "extractFFB message = digits"
proof -
  have "\<exists>y. match_here re_FFB (digits @ ws @ anchor @ post) = Some y \<and> snd y 1 = Some digits"
    using anchor digits ws by (rule FFB_at)
  then obtain y where here: "match_here re_FFB (digits @ ws @ anchor @ post) = Some y"
    and y: "snd y 1 = Some digits" by blast
  have "\<forall>j<length pre. match_here re_FFB (drop j (pre @ digits @ ws @ anchor @ post)) = None"
    unfolding msg[symmetric] by (rule first)
  from extract_via_first[OF here this]
  have "exec re_FFB message = Some y" unfolding msg .
  then show ?thesis
    unfolding extractFFB_def using group1_Some1[OF digits(1) y] by simp
qed

lemma Beneficiary_inside_word:
  assumes msg: "message = pre @ anchor @ ws @ body @ ws' @ anchor' @ post"
    and anchor: "map Canonicalize anchor = map Canonicalize (str ''to'')"
    and anchor': "map Canonicalize anchor' = map Canonicalize (str ''Total'')"
    and ws: "ws \<noteq> []" "\<forall>c\<in>set ws. isWhiteSpace c"
    and ws': "ws' \<noteq> []" "\<forall>c\<in>set ws'. isWhiteSpace c"
    and body: "body \<noteq> []" "\<not> isWhiteSpace (hd body)" "\<not> isWhiteSpace (last body)"
    and no: "\<forall>p<length body. \<not> starts_with_ci (str ''Total'') (drop p (body @ ws' @ anchor' @ post))"
    and first: "\<forall>i<length pre. match_here re_BeneficiaryBank (drop i message) = None"
  shows "extractBeneficiaryBank message = body"
proof -
  have "\<exists>y. match_here re_BeneficiaryBank (anchor @ ws @ body @ ws' @ anchor' @ post) = Some y
            \<and> snd y 1 = Some body"
    using anchor ws body no ws' anchor' by (rule Beneficiary_at)
  then obtain y where here: "match_here re_BeneficiaryBank (anchor @ ws @ body @ ws' @ anchor' @ post) = Some y"
    and y: "snd y 1 = Some body" by blast
  have "\<forall>j<length pre. match_here re_BeneficiaryBank
          (drop j (pre @ anchor @ ws @ body @ ws' @ anchor' @ post)) = None"
    unfolding msg[symmetric] by (rule first)
  from extract_via_first[OF here this]
  have "exec re_BeneficiaryBank message = Some y" unfolding msg .
  then have "extractBeneficiaryBank message = trim body"
    unfolding extractBeneficiaryBank_def using group1_Some1[OF body(1) y] by simp
  then show ?thesis using trim_unchanged[OF body] by simp
qed

text \<open>
  C9: the anchor of each extractor is matched as a substring, without regard to case,
  not as a word of its own. For every message that contains \<open>Subtotal\<close>, white space and
  a run of digits, with no match of the Total pattern at an earlier index,
  \<open>extractTotal\<close> returns the digits, whatever stands before. In the same way \<open>H2H\<close>
  and \<open>notes\<close> match behind any text \<open>pre\<close>, \<open>ffb\<close> matches before any text
  \<open>post\<close>, and \<open>to\<close> and \<open>Total\<close> of the Beneficiary Bank pattern match behind any
  \<open>pre\<close> and before any \<open>post\<close>: in each case the end or the beginning of a longer
  word included.
\<close>

theorem anchors_are_substrings:
  "(message = pre @ str ''Subtotal'' @ ws @ digits @ post
      \<and> ws \<noteq> [] \<and> (\<forall>c\<in>set ws. isWhiteSpace c)
      \<and> digits \<noteq> [] \<and> (\<forall>c\<in>set digits. isDigit c)
      \<and> (post = [] \<or> \<not> isDigit (hd post))
      \<and> (\<forall>i<length pre + 3. match_here re_Total (drop i message) = None)
    \<longrightarrow> extractTotal message = digits)
   \<and> (message = pre @ anchor @ ws @ word @ post
      \<and> map Canonicalize anchor = map Canonicalize (str ''H2H'')
      \<and> ws \<noteq> [] \<and> (\<forall>c\<in>set ws. isWhiteSpace c)
      \<and> word \<noteq> [] \<and> (\<forall>c\<in>set word. isWordChar c)
      \<and> (post = [] \<or> \<not> isWordChar (hd post))
      \<and> (\<forall>i<length pre. match_here re_SourceBank (drop i message) = None)
    \<longrightarrow> extractSourceBank message = word)
   \<and> (message = pre @ anchor @ ws @ body @ post
      \<and> map Canonicalize anchor = map Canonicalize (str ''notes'')
      \<and> ws \<noteq> [] \<and> (\<forall>c\<in>set ws. isWhiteSpace c)
      \<and> body \<noteq> [] \<and> \<not> isWhiteSpace (hd body) \<and> 10 \<notin> set body
      \<and> (post = [] \<or> hd post = 10)
      \<and> (\<forall>i<length pre. match_here re_Notes (drop i message) = None)
    \<longrightarrow> extractNotes message = trim body)
   \<and> (message = pre @ digits @ ws @ anchor @ post
      \<and> map Canonicalize anchor = map Canonicalize (str ''ffb'')
      \<and> digits \<noteq> [] \<and> (\<forall>c\<in>set digits. isDigit c)
      \<and> ws \<noteq> [] \<and> (\<forall>c\<in>set ws. isWhiteSpace c)
      \<and> (\<forall>i<length pre. match_here re_FFB (drop i message) = None)
    \<longrightarrow> extractFFB message = digits)
   \<and> (message = pre @ anchor @ ws @ body @ ws' @ anchor' @ post
      \<and> map Canonicalize anchor = map Canonicalize (str ''to'')
      \<and> map Canonicalize anchor' = map Canonicalize (str ''Total'')
      \<and> ws \<noteq> [] \<and> (\<forall>c\<in>set ws. isWhiteSpace c)
      \<and> ws' \<noteq> [] \<and> (\<forall>c\<in>set ws'. isWhiteSpace c)
      \<and> body \<noteq> [] \<and> \<not> isWhiteSpace (hd body) \<and> \<not> isWhiteSpace (last body)
      \<and> (\<forall>p<length body. \<not> starts_with_ci (str ''Total'') (drop p (body @ ws' @ anchor' @ post)))
      \<and> (\<forall>i<length pre. match_here re_BeneficiaryBank (drop i message) = None)
    \<longrightarrow> extractBeneficiaryBank message = body)"
proof (intro conjI impI; elim conjE)
  assume "message = pre @ str ''Subtotal'' @ ws @ digits @ post" "ws \<noteq> []"
    "\<forall>c\<in>set ws. isWhiteSpace c" "digits \<noteq> []" "\<forall>c\<in>set digits. isDigit c"
    "post = [] \<or> \<not> isDigit (hd post)"
    "\<forall>i<length pre + 3. match_here re_Total (drop i message) = None"
  then show "extractTotal message = digits" by (rule Total_inside_Subtotal)
next
  assume "message = pre @ anchor @ ws @ word @ post"
    "map Canonicalize anchor = map Canonicalize (str ''H2H'')" "ws \<noteq> []"
    "\<forall>c\<in>set ws. isWhiteSpace c" "word \<noteq> []" "\<forall>c\<in>set word. isWordChar c"
    "post = [] \<or> \<not> isWordChar (hd post)"
    "\<forall>i<length pre. match_here re_SourceBank (drop i message) = None"
  then show "extractSourceBank message = word" by (rule SourceBank_inside_word)
next
  assume a: "message = pre @ anchor @ ws @ body @ post"
    "map Canonicalize anchor = map Canonicalize (str ''notes'')" "ws \<noteq> []"
    "\<forall>c\<in>set ws. isWhiteSpace c" and b: "body \<noteq> []" "\<not> isWhiteSpace (hd body)"
    and c: "10 \<notin> set body" "post = [] \<or> hd post = 10"
    "\<forall>i<length pre. match_here re_Notes (drop i message) = None"
  have "extractNotes message = (if body = [] then NA else trim body)"
    using a _ c(1,2) _ c(3) by (rule Notes_inside_word) (use b in simp_all)
  then show "extractNotes message = trim body" using b by simp
next
  assume "message = pre @ digits @ ws @ anchor @ post"
    "map Canonicalize anchor = map Canonicalize (str ''ffb'')"
    "digits \<noteq> []" "\<forall>c\<in>set digits. isDigit c" "ws \<noteq> []" "\<forall>c\<in>set ws. isWhiteSpace c"
    "\<forall>i<length pre. match_here re_FFB (drop i message) = None"
  then show "extractFFB message = digits" by (rule FFB_inside_word)
next
  assume "message = pre @ anchor @ ws @ body @ ws' @ anchor' @ post"
    "map Canonicalize anchor = map Canonicalize (str ''to'')"
    "map Canonicalize anchor' = map Canonicalize (str ''Total'')"
    "ws \<noteq> []" "\<forall>c\<in>set ws. isWhiteSpace c" "ws' \<noteq> []" "\<forall>c\<in>set ws'. isWhiteSpace c"
    "body \<noteq> []" "\<not> isWhiteSpace (hd body)" "\<not> isWhiteSpace (last body)"
    "\<forall>p<length body. \<not> starts_with_ci (str ''Total'') (drop p (body @ ws' @ anchor' @ post))"
    "\<forall>i<length pre. match_here re_BeneficiaryBank (drop i message) = None"
  then show "extractBeneficiaryBank message = body" by (rule Beneficiary_inside_word)
qed

lemmas pattern_eval = match_here_def re_FFB_def re_BeneficiaryBank_def

theorem anchors_are_substrings_witness:
  "extractTotal ([] @ str ''Subtotal'' @ str '' '' @ str ''500'' @ str '' due'') = str ''500''
   \<and> extractSourceBank (str ''BCH'' @ str ''h2H'' @ str '' '' @ str ''BRI'' @ []) = str ''BRI''
   \<and> extractNotes (str ''foot'' @ str ''Notes'' @ str '' '' @ str ''paid late'' @ []) = trim (str ''paid late'')
   \<and> extractFFB (str ''load '' @ str ''5'' @ str '' '' @ str ''FFB'' @ str ''s'') = str ''5''
   \<and> extractBeneficiaryBank
        (str ''pho'' @ str ''to'' @ str '' '' @ str ''BCA'' @ str '' '' @ str ''Total'' @ str ''s'') = str ''BCA''"
proof (intro conjI)
  show "extractTotal ([] @ str ''Subtotal'' @ str '' '' @ str ''500'' @ str '' due'') = str ''500''"
    by (rule anchors_are_substrings[where pre = "[]" and ws = "str '' ''" and post = "str '' due''",
          THEN conjunct1, THEN mp])
       (simp add: class_eval match_here_Total All_less_Suc numeral_3_eq_3)
  show "extractSourceBank (str ''BCH'' @ str ''h2H'' @ str '' '' @ str ''BRI'' @ []) = str ''BRI''"
    by (rule anchors_are_substrings[where pre = "str ''BCH''" and anchor = "str ''h2H''"
          and ws = "str '' ''" and post = "[]",
          THEN conjunct2, THEN conjunct1, THEN mp])
       (simp add: class_eval match_here_SourceBank All_less_Suc)
  show "extractNotes (str ''foot'' @ str ''Notes'' @ str '' '' @ str ''paid late'' @ [])
     = trim (str ''paid late'')"
    by (rule anchors_are_substrings[where pre = "str ''foot''" and anchor = "str ''Notes''"
          and ws = "str '' ''" and post = "[]",
          THEN conjunct2, THEN conjunct2, THEN conjunct1, THEN mp])
       (simp add: class_eval match_here_Notes All_less_Suc)
  show "extractFFB (str ''load '' @ str ''5'' @ str '' '' @ str ''FFB'' @ str ''s'') = str ''5''"
    by (rule anchors_are_substrings[where pre = "str ''load ''" and anchor = "str ''FFB''"
          and ws = "str '' ''" and post = "str ''s''",
          THEN conjunct2, THEN conjunct2, THEN conjunct2, THEN conjunct1, THEN mp])
       (simp add: class_eval pattern_eval All_less_Suc)
  show "extractBeneficiaryBank
        (str ''pho'' @ str ''to'' @ str '' '' @ str ''BCA'' @ str '' '' @ str ''Total'' @ str ''s'') = str ''BCA''"
    by (rule anchors_are_substrings[where pre = "str ''pho''" and anchor = "str ''to''"
          and ws = "str '' ''" and ws' = "str '' ''" and anchor' = "str ''Total''"
          and post = "str ''s''",
          THEN conjunct2, THEN conjunct2, THEN conjunct2, THEN conjunct2, THEN mp])
       (simp add: class_eval pattern_eval All_less_Suc)
qed

section \<open>Messages without an anchor\<close>

text \<open>
  C5: when the anchor literal of an extractor does not occur in the message (compared
  without regard to case), the extractor returns \<open>N/A\<close>. The Beneficiary Bank pattern
  has two anchors, \<open>to\<close> and \<open>Total\<close>; it is enough that one is missing. The
  extractors are total on strings: there is no error to return.
\<close>

theorem missing_anchor_gives_NA:
  "(\<not> occurs_ci (str ''H2H'') message \<longrightarrow> extractSourceBank message = NA)
   \<and> (\<not> occurs_ci (str ''to'') message \<or> \<not> occurs_ci (str ''Total'') message
        \<longrightarrow> extractBeneficiaryBank message = NA)
   \<and> (\<not> occurs_ci (str ''Total'') message \<longrightarrow> extractTotal message = NA)
   \<and> (\<not> occurs_ci (str ''ffb'') message \<longrightarrow> extractFFB message = NA)
   \<and> (\<not> occurs_ci (str ''notes'') message \<longrightarrow> extractNotes message = NA)"
proof (intro conjI impI)
  assume "\<not> occurs_ci (str ''H2H'') message"
  with SourceBank_needs_anchor have "exec re_SourceBank message = None" by (rule exec_occurs)
  then show "extractSourceBank message = NA" by (simp add: extractSourceBank_def group1_def)
next
  assume "\<not> occurs_ci (str ''to'') message \<or> \<not> occurs_ci (str ''Total'') message"
  then have "exec re_BeneficiaryBank message = None"
  proof
    assume "\<not> occurs_ci (str ''to'') message"
    with Beneficiary_needs_to show ?thesis by (rule exec_occurs)
  next
    assume "\<not> occurs_ci (str ''Total'') message"
    with Beneficiary_needs_Total show ?thesis by (rule exec_occurs)
  qed
  then show "extractBeneficiaryBank message = NA"
    by (simp add: extractBeneficiaryBank_def group1_def)
next
  assume "\<not> occurs_ci (str ''Total'') message"
  with Total_needs_anchor have "exec re_Total message = None" by (rule exec_occurs)
  then show "extractTotal message = NA" by (simp add: extractTotal_def group1_def)
next
  assume "\<not> occurs_ci (str ''ffb'') message"
  with FFB_needs_anchor have "exec re_FFB message = None" by (rule exec_occurs)
  then show "extractFFB message = NA" by (simp add: extractFFB_def group1_def)
next
  assume "\<not> occurs_ci (str ''notes'') message"
  with Notes_needs_anchor have "exec re_Notes message = None" by (rule exec_occurs)
  then show "extractNotes message = NA" by (simp add: extractNotes_def group1_def)
qed

theorem missing_anchor_gives_NA_witness:
  "extractSourceBank (str ''hello there'') = NA
   \<and> extractBeneficiaryBank (str ''hello there'') = NA
   \<and> extractTotal (str ''hello there'') = NA
   \<and> extractFFB (str ''hello there'') = NA
   \<and> extractNotes (str ''hello there'') = NA"
proof -
  have no: "\<not> occurs_ci (str ''H2H'') (str ''hello there'')"
    "\<not> occurs_ci (str ''to'') (str ''hello there'')"
    "\<not> occurs_ci (str ''Total'') (str ''hello there'')"
    "\<not> occurs_ci (str ''ffb'') (str ''hello there'')"
    "\<not> occurs_ci (str ''notes'') (str ''hello there'')"
    by (simp_all add: class_eval)
  show ?thesis
    using missing_anchor_gives_NA[of "str ''hello there''"] no by blast
qed

section \<open>Notes\<close>

text \<open>The first capture of the Notes pattern holds no line feed.\<close>
lemma Notes_capture:
  assumes "match_here re_Notes s = Some y"
  shows "\<exists>g. snd y 1 = Some g \<and> 10 \<notin> set g \<and> (g = [] \<or> \<not> isWhiteSpace (hd g))"
proof -
  let ?t = "dropWhile isWhiteSpace (drop 5 s)"
  let ?g = "takeWhile (\<lambda>c. c \<noteq> 10) ?t"
  from assms have y: "snd y 1 = Some ?g"
    unfolding match_here_Notes by (auto split: if_splits)
  have "10 \<notin> set ?g" by (auto dest: set_takeWhileD)
  moreover have "?g = [] \<or> \<not> isWhiteSpace (hd ?g)"
  proof (cases "?g = []")
    case False
    have "?t \<noteq> []"
    proof
      assume "?t = []"
      then have "?g = []" by (simp only: takeWhile.simps)
      then show False using False by blast
    qed
    then have "\<not> isWhiteSpace (hd ?t)" by (rule hd_dropWhile)
    moreover have "hd ?g = hd ?t" using False by (cases ?t) (auto split: if_splits)
    ultimately show ?thesis by simp
  qed simp
  ultimately show ?thesis using y by blast
qed

lemma NA_no_LF: "10 \<notin> set NA"
  by (simp add: NA_def str_def)

lemma NA_nonempty: "NA \<noteq> []"
  by (simp add: NA_def str_def)

lemma extractNotes_no_LF: "10 \<notin> set (extractNotes message)"
proof (cases "group1 (exec re_Notes message)")
  case None
  then show ?thesis by (simp add: extractNotes_def NA_no_LF)
next
  case (Some g)
  then obtain y where ex: "exec re_Notes message = Some y" and y: "snd y 1 = Some g"
    by (auto simp: group1_def split: option.splits if_splits)
  from exec_SomeD[OF ex] obtain i where "match_here re_Notes (drop i message) = Some y" by blast
  from Notes_capture[OF this] y have "10 \<notin> set g" by auto
  then have "10 \<notin> set (trim g)" using set_trim by blast
  then show ?thesis using Some by (simp add: extractNotes_def)
qed

lemma Notes_after_first_anchor:
  assumes msg: "message = pre @ anchor @ ws @ body @ post"
    and anchor: "map Canonicalize anchor = map Canonicalize (str ''notes'')"
    and first: "\<forall>i<length pre. \<not> starts_with_ci (str ''notes'') (drop i message)"
    and ws: "ws \<noteq> []" "\<forall>c\<in>set ws. isWhiteSpace c"
    and body: "body = [] \<or> \<not> isWhiteSpace (hd body)" "10 \<notin> set body"
    and post: "post = [] \<or> hd post = 10" "body = [] \<longrightarrow> post = []"
  shows "extractNotes message = (if body = [] then NA else trim body)"
proof -
  have "\<forall>i<length pre. match_here re_Notes (drop i message) = None"
    using first unfolding match_here_Notes by simp
  with msg anchor ws body post show ?thesis by (rule Notes_inside_word)
qed

text \<open>
  C3, as amended: \<open>extractNotes\<close> returns the text behind the first occurrence of
  \<open>notes\<close> and the white space that follows it, up to the next line feed or the end of
  the input, trimmed, and \<open>N/A\<close> when that text is empty. The result never holds a
  line feed: a notes value that goes on behind a line feed is cut there. The first part is
  stated for a white space run without a line feed.
\<close>

theorem notes_stop_at_line_feed:
  "(message = pre @ anchor @ ws @ body @ post
      \<and> map Canonicalize anchor = map Canonicalize (str ''notes'')
      \<and> (\<forall>i<length pre. \<not> starts_with_ci (str ''notes'') (drop i message))
      \<and> ws \<noteq> [] \<and> (\<forall>c\<in>set ws. isWhiteSpace c \<and> c \<noteq> 10)
      \<and> (body = [] \<or> \<not> isWhiteSpace (hd body)) \<and> 10 \<notin> set body
      \<and> (post = [] \<or> hd post = 10) \<and> (body = [] \<longrightarrow> post = [])
    \<longrightarrow> extractNotes message = (if body = [] then NA else trim body))
   \<and> 10 \<notin> set (extractNotes message)"
proof (intro conjI impI; (elim conjE)?)
  assume "message = pre @ anchor @ ws @ body @ post"
    "map Canonicalize anchor = map Canonicalize (str ''notes'')"
    "\<forall>i<length pre. \<not> starts_with_ci (str ''notes'') (drop i message)"
    "ws \<noteq> []" and ws: "\<forall>c\<in>set ws. isWhiteSpace c \<and> c \<noteq> 10"
    and rest: "body = [] \<or> \<not> isWhiteSpace (hd body)" "10 \<notin> set body"
    "post = [] \<or> hd post = 10" "body = [] \<longrightarrow> post = []"
  moreover have "\<forall>c\<in>set ws. isWhiteSpace c" using ws by blast
  ultimately show "extractNotes message = (if body = [] then NA else trim body)"
    using rest by (intro Notes_after_first_anchor)
next
  show "10 \<notin> set (extractNotes message)" by (rule extractNotes_no_LF)
qed

theorem notes_stop_at_line_feed_witness:
  "extractNotes (str ''Re: '' @ str ''Notes'' @ str ''  '' @ str ''paid in full '' @ 10 # str ''next line'')
     = str ''paid in full''
   \<and> 10 \<notin> set (extractNotes (str ''Re: '' @ str ''Notes'' @ str ''  '' @ str ''paid in full '' @ 10 # str ''next line''))"
proof
  have "extractNotes (str ''Re: '' @ str ''Notes'' @ str ''  '' @ str ''paid in full '' @ 10 # str ''next line'')
     = (if str ''paid in full '' = [] then NA else trim (str ''paid in full ''))"
    by (rule notes_stop_at_line_feed[where pre = "str ''Re: ''" and anchor = "str ''Notes''"
          and ws = "str ''  ''" and post = "10 # str ''next line''", THEN conjunct1, THEN mp])
       (simp add: class_eval All_less_Suc)
  then show "extractNotes (str ''Re: '' @ str ''Notes'' @ str ''  '' @ str ''paid in full '' @ 10 # str ''next line'')
     = str ''paid in full''"
    by (simp add: trim_def class_eval)
  show "10 \<notin> set (extractNotes (str ''Re: '' @ str ''Notes'' @ str ''  '' @ str ''paid in full '' @ 10 # str ''next line''))"
    by (rule notes_stop_at_line_feed[THEN conjunct2])
qed

text \<open>
  C3 as first stated does not hold: a notes value that spans a line feed is not spanned,
  the second line is left out.
\<close>

theorem notes_span_counterexample:
  "extractNotes (str ''notes first line'' @ 10 # str ''second line'') = str ''first line''
   \<and> extractNotes (str ''notes first line'' @ 10 # str ''second line'')
       \<noteq> str ''first line'' @ 10 # str ''second line''"
  by (simp add: extract_eval)

section \<open>Empty captures\<close>

lemma group1_SomeD:
  "group1 m = Some g \<Longrightarrow> g \<noteq> [] \<and> (\<exists>y. m = Some y \<and> snd y 1 = Some g)"
  by (auto simp: group1_def split: option.splits if_splits)

lemma extractNotes_nonempty: "extractNotes message \<noteq> []"
proof (cases "group1 (exec re_Notes message)")
  case None
  then show ?thesis by (simp add: extractNotes_def NA_nonempty)
next
  case (Some g)
  from group1_SomeD[OF this] obtain y where g: "g \<noteq> []" and ex: "exec re_Notes message = Some y"
    and y: "snd y 1 = Some g" by blast
  from exec_SomeD[OF ex] obtain i where "match_here re_Notes (drop i message) = Some y" by blast
  from Notes_capture[OF this] y g have "\<not> isWhiteSpace (hd g)" by auto
  with g have "trim g \<noteq> []" by (rule trim_nonempty)
  then show ?thesis using Some by (simp add: extractNotes_def)
qed

lemma extractBeneficiaryBank_nonempty: "extractBeneficiaryBank message \<noteq> []"
proof (cases "group1 (exec re_BeneficiaryBank message)")
  case None
  then show ?thesis by (simp add: extractBeneficiaryBank_def NA_nonempty)
next
  case (Some g)
  from group1_SomeD[OF this] obtain y where g: "g \<noteq> []"
    and ex: "exec re_BeneficiaryBank message = Some y" and y: "snd y 1 = Some g" by blast
  from exec_SomeD[OF ex] obtain i where "match_here re_BeneficiaryBank (drop i message) = Some y"
    by blast
  from Beneficiary_capture[OF this y g] have "trim g \<noteq> []" by (rule trim_keeps_text)
  then show ?thesis using Some by (simp add: extractBeneficiaryBank_def)
qed

lemma field_nonempty: "(case group1 m of Some g \<Rightarrow> g | None \<Rightarrow> NA) \<noteq> []"
  by (cases "group1 m") (auto simp: NA_nonempty dest: group1_SomeD)

text \<open>
  C10: when the Notes or the Beneficiary Bank pattern matches and its first
  capture is the empty string, the extractor returns \<open>N/A\<close>; no extractor ever
  returns the empty string (the other three patterns capture at least one character).
  The examples: only white space between the first \<open>notes\<close> and the end of the input,
  and the message \<open>to  Total\<close>.
\<close>

theorem empty_capture_gives_NA:
  "(exec re_Notes message = Some y \<and> snd y 1 = Some [] \<longrightarrow> extractNotes message = NA)
   \<and> (exec re_BeneficiaryBank message = Some y \<and> snd y 1 = Some []
        \<longrightarrow> extractBeneficiaryBank message = NA)
   \<and> extractSourceBank message \<noteq> [] \<and> extractBeneficiaryBank message \<noteq> []
   \<and> extractTotal message \<noteq> [] \<and> extractFFB message \<noteq> [] \<and> extractNotes message \<noteq> []
   \<and> (message = pre @ anchor @ ws
        \<and> map Canonicalize anchor = map Canonicalize (str ''notes'')
        \<and> (\<forall>i<length pre. \<not> starts_with_ci (str ''notes'') (drop i message))
        \<and> ws \<noteq> [] \<and> (\<forall>c\<in>set ws. isWhiteSpace c)
      \<longrightarrow> extractNotes message = NA)
   \<and> extractBeneficiaryBank (str ''to  Total'') = NA"
proof (intro conjI impI; (elim conjE)?)
  assume "exec re_Notes message = Some y" "snd y 1 = Some []"
  then show "extractNotes message = NA" by (simp add: extractNotes_def group1_def)
next
  assume "exec re_BeneficiaryBank message = Some y" "snd y 1 = Some []"
  then show "extractBeneficiaryBank message = NA"
    by (simp add: extractBeneficiaryBank_def group1_def)
next
  show "extractSourceBank message \<noteq> []" unfolding extractSourceBank_def by (rule field_nonempty)
  show "extractTotal message \<noteq> []" unfolding extractTotal_def by (rule field_nonempty)
  show "extractFFB message \<noteq> []" unfolding extractFFB_def by (rule field_nonempty)
  show "extractBeneficiaryBank message \<noteq> []" by (rule extractBeneficiaryBank_nonempty)
  show "extractNotes message \<noteq> []" by (rule extractNotes_nonempty)
next
  assume a: "message = pre @ anchor @ ws"
    "map Canonicalize anchor = map Canonicalize (str ''notes'')"
    "\<forall>i<length pre. \<not> starts_with_ci (str ''notes'') (drop i message)"
    "ws \<noteq> []" "\<forall>c\<in>set ws. isWhiteSpace c"
  have "extractNotes message = (if ([]::jsstring) = [] then NA else trim [])"
    by (rule Notes_after_first_anchor[where post = "[]" and pre = pre and anchor = anchor and ws = ws])
       (use a in simp_all)
  then show "extractNotes message = NA" by simp
next
  show "extractBeneficiaryBank (str ''to  Total'') = NA" by (simp add: extract_eval)
qed

theorem empty_capture_gives_NA_witness:
  "extractNotes (str ''notes   '') = NA
   \<and> extractBeneficiaryBank (str ''to  Total'') = NA
   \<and> extractNotes (str ''Re: '' @ str ''Notes'' @ str ''  '' @ [10]) = NA"
proof (intro conjI)
  show "extractNotes (str ''notes   '') = NA"
    by (rule empty_capture_gives_NA[where y = "([], [1 \<mapsto> [], 2 \<mapsto> []])", THEN conjunct1, THEN mp])
       (simp add: extract_eval)
  show "extractBeneficiaryBank (str ''to  Total'') = NA"
    by (rule empty_capture_gives_NA[where y = "([], [1 \<mapsto> []])", THEN conjunct2, THEN conjunct1, THEN mp])
       (simp add: extract_eval)
  show "extractNotes (str ''Re: '' @ str ''Notes'' @ str ''  '' @ [10]) = NA"
    by (rule empty_capture_gives_NA[where pre = "str ''Re: ''" and anchor = "str ''Notes''"
          and ws = "str ''  '' @ [10]",
          THEN conjunct2, THEN conjunct2, THEN conjunct2, THEN conjunct2, THEN conjunct2,
          THEN conjunct2, THEN conjunct2, THEN conjunct1, THEN mp])
       (simp add: class_eval All_less_Suc)
qed

section \<open>Properties of the permalink\<close>

lemma replace_dot: "replace (str ''.'') [] ts = remove1 46 ts"
  by (induction ts) (auto simp: str_def)

text \<open>
  C6: the permalink is a function of the channel and the timestamp alone: the workspace
  URL, \<open>/archives/\<close>, the channel, \<open>/p\<close> and the timestamp without its first
  full stop (code unit 46). Every other character of the timestamp stays where it is, and
  a timestamp without a full stop is kept whole.
\<close>

theorem permalink_construction:
  "generateSlackLink en (JString channel) (JString ts)
     = Inr (workspaceUrl @ str ''/archives/'' @ channel @ str ''/p'' @ remove1 46 ts)
   \<and> generateSlackLink en' (JString channel) (JString ts)
     = generateSlackLink en (JString channel) (JString ts)
   \<and> (46 \<notin> set secs \<longrightarrow>
        generateSlackLink en (JString channel) (JString (secs @ 46 # fraction))
          = Inr (workspaceUrl @ str ''/archives/'' @ channel @ str ''/p'' @ secs @ fraction))
   \<and> (46 \<notin> set ts \<longrightarrow>
        generateSlackLink en (JString channel) (JString ts)
          = Inr (workspaceUrl @ str ''/archives/'' @ channel @ str ''/p'' @ ts))"
proof (intro conjI impI)
  show 1: "generateSlackLink en (JString channel) (JString ts)
     = Inr (workspaceUrl @ str ''/archives/'' @ channel @ str ''/p'' @ remove1 46 ts)" for en ts
    by (simp add: generateSlackLink_def replace_dot)
  show "generateSlackLink en' (JString channel) (JString ts)
     = generateSlackLink en (JString channel) (JString ts)"
    by (simp only: 1)
  show "generateSlackLink en (JString channel) (JString (secs @ 46 # fraction))
          = Inr (workspaceUrl @ str ''/archives/'' @ channel @ str ''/p'' @ secs @ fraction)"
    if "46 \<notin> set secs"
    using that by (simp add: 1 remove1_append)
  show "generateSlackLink en (JString channel) (JString ts)
          = Inr (workspaceUrl @ str ''/archives/'' @ channel @ str ''/p'' @ ts)"
    if "46 \<notin> set ts"
    using that by (simp add: 1 remove1_idem)
qed

theorem permalink_construction_witness:
  "generateSlackLink (example_env (parses_to mention_body mention_event) True) (JString (str ''C1234567890'')) (JString (str ''1698257696'' @ 46 # str ''123456''))
     = Inr (str ''https://your-slack-workspace.slack.com/archives/C1234567890/p1698257696123456'')
   \<and> generateSlackLink (example_env (parses_to mention_body mention_event) True) (JString (str ''C1234567890'')) (JString (str ''1698257696''))
     = Inr (str ''https://your-slack-workspace.slack.com/archives/C1234567890/p1698257696'')"
proof
  have "generateSlackLink (example_env (parses_to mention_body mention_event) True) (JString (str ''C1234567890'')) (JString (str ''1698257696'' @ 46 # str ''123456''))
     = Inr (workspaceUrl @ str ''/archives/'' @ str ''C1234567890'' @ str ''/p'' @ str ''1698257696'' @ str ''123456'')"
    by (rule permalink_construction[THEN conjunct2, THEN conjunct2, THEN conjunct1, THEN mp])
       (simp add: str_def)
  then show "generateSlackLink (example_env (parses_to mention_body mention_event) True) (JString (str ''C1234567890'')) (JString (str ''1698257696'' @ 46 # str ''123456''))
     = Inr (str ''https://your-slack-workspace.slack.com/archives/C1234567890/p1698257696123456'')"
    by (simp add: workspaceUrl_def str_def)
  have "generateSlackLink (example_env (parses_to mention_body mention_event) True) (JString (str ''C1234567890'')) (JString (str ''1698257696''))
     = Inr (workspaceUrl @ str ''/archives/'' @ str ''C1234567890'' @ str ''/p'' @ str ''1698257696'')"
    by (rule permalink_construction[THEN conjunct2, THEN conjunct2, THEN conjunct2, THEN mp])
       (simp add: str_def)
  then show "generateSlackLink (example_env (parses_to mention_body mention_event) True) (JString (str ''C1234567890'')) (JString (str ''1698257696''))
     = Inr (str ''https://your-slack-workspace.slack.com/archives/C1234567890/p1698257696'')"
    by (simp add: workspaceUrl_def str_def)
qed

section \<open>Properties of the handler\<close>

lemmas js_defs = bind_def ret_def lift_def Logger_log_def log_concat_def

lemma try_body_returns:
  "try_body en e w = (Inr (Some r), w') \<Longrightarrow> is_url_verification en e"
  by (auto simp: try_body_def is_url_verification_def js_defs
      split: sum.splits prod.splits if_splits option.splits)

text \<open>
  C1: for every request that is not a handshake (its body does not parse, or the parsed
  body has no \<open>type\<close> equal to \<open>url_verification\<close>), \<open>doPost\<close> returns the response
  \<open>{ success: true }\<close>. Every error raised inside the \<open>try\<close> is caught: \<open>doPost\<close>
  has a response for every request and every environment.
\<close>

theorem doPost_always_acknowledges:
  "\<not> is_url_verification en e \<Longrightarrow> fst (doPost en e w) = success"
proof -
  assume no: "\<not> is_url_verification en e"
  obtain res w' where t: "try_body en e w = (res, w')" by (cases "try_body en e w")
  show ?thesis
  proof (cases res)
    case (Inl err)
    then show ?thesis using t by (simp add: doPost_def)
  next
    case (Inr ro)
    show ?thesis
    proof (cases ro)
      case None
      then show ?thesis using t Inr by (simp add: doPost_def)
    next
      case (Some r)
      then have "is_url_verification en e" using t Inr try_body_returns by blast
      then show ?thesis using no by blast
    qed
  qed
qed

lemmas handler_eval = request_def example_env_def parses_to_def parse_body_def
  is_url_verification_def str_def

theorem doPost_always_acknowledges_witness:
  \<open>fst (doPost (example_env (parses_to mention_body mention_event) True) (request (str ''{not json''))
          \<lparr>sheet = [], logger = []\<rparr>) = success
   \<and> fst (doPost (example_env (parses_to (str ''{}'') (JObject [])) True) (request (str ''{}''))
          \<lparr>sheet = [], logger = []\<rparr>) = success
   \<and> fst (doPost (example_env (parses_to (str ''{"event":{"type":"app_mention"}}'')
              (JObject [(str ''event'', JObject [(str ''type'', JString (str ''app_mention''))])])) True)
          (request (str ''{"event":{"type":"app_mention"}}'')) \<lparr>sheet = [], logger = []\<rparr>) = success
   \<and> fst (doPost (example_env (parses_to mention_body mention_event) False) (request mention_body)
          \<lparr>sheet = [], logger = []\<rparr>) = success\<close>
proof (intro conjI)
  show \<open>fst (doPost (example_env (parses_to mention_body mention_event) True) (request (str ''{not json''))
          \<lparr>sheet = [], logger = []\<rparr>) = success\<close>
    by (rule doPost_always_acknowledges) (simp add: handler_eval mention_body_def)
  show \<open>fst (doPost (example_env (parses_to (str ''{}'') (JObject [])) True) (request (str ''{}''))
          \<lparr>sheet = [], logger = []\<rparr>) = success\<close>
    by (rule doPost_always_acknowledges) (simp add: handler_eval)
  show \<open>fst (doPost (example_env (parses_to (str ''{"event":{"type":"app_mention"}}'')
              (JObject [(str ''event'', JObject [(str ''type'', JString (str ''app_mention''))])])) True)
          (request (str ''{"event":{"type":"app_mention"}}'')) \<lparr>sheet = [], logger = []\<rparr>) = success\<close>
    by (rule doPost_always_acknowledges) (simp add: handler_eval)
  show \<open>fst (doPost (example_env (parses_to mention_body mention_event) False) (request mention_body)
          \<lparr>sheet = [], logger = []\<rparr>) = success\<close>
    by (rule doPost_always_acknowledges) (simp add: handler_eval mention_event_def)
qed

text \<open>
  C4: when the parsed body has \<open>type\<close> \<open>url_verification\<close> and its \<open>challenge\<close> is a
  string, \<open>doPost\<close> returns \<open>{ challenge: <that string> }\<close>, leaves the sheet as it
  is and writes four log lines, none of them from the extraction.
\<close>

theorem handshake_echoes_challenge:
  assumes "parse_body en e = Inr data"
    and "get data (str ''type'') = Inr (JString (str ''url_verification''))"
    and "get data (str ''challenge'') = Inr (JString challenge)"
  shows "doPost en e w =
     (JsonOutput (JObject [(str ''challenge'', JString challenge)]),
      w\<lparr>logger := logger w @
          [LogJSON (str ''Data received from Slack: '') e,
           LogJSON (str ''Parsed data: '') data,
           Log (str ''URL verification request received.''),
           Log (str ''Challenge: '' @ challenge)]\<rparr>)"
  using assms by (simp add: doPost_def try_body_def js_defs)

theorem handshake_echoes_challenge_witness:
  \<open>doPost (example_env (parses_to (str ''{"type":"url_verification","challenge":"abc123"}'')
              (JObject [(str ''type'', JString (str ''url_verification'')),
                        (str ''challenge'', JString (str ''abc123''))])) True)
      (request (str ''{"type":"url_verification","challenge":"abc123"}''))
      \<lparr>sheet = [], logger = []\<rparr>
    = (JsonOutput (JObject [(str ''challenge'', JString (str ''abc123''))]),
       \<lparr>sheet = [], logger =
          [LogJSON (str ''Data received from Slack: '')
             (request (str ''{"type":"url_verification","challenge":"abc123"}'')),
           LogJSON (str ''Parsed data: '')
             (JObject [(str ''type'', JString (str ''url_verification'')),
                       (str ''challenge'', JString (str ''abc123''))]),
           Log (str ''URL verification request received.''),
           Log (str ''Challenge: abc123'')]\<rparr>)\<close>
  using handshake_echoes_challenge[of
      "example_env (parses_to (str ''{\"type\":\"url_verification\",\"challenge\":\"abc123\"}'')
              (JObject [(str ''type'', JString (str ''url_verification'')),
                        (str ''challenge'', JString (str ''abc123''))])) True"
      "request (str ''{\"type\":\"url_verification\",\"challenge\":\"abc123\"}'')"
      "JObject [(str ''type'', JString (str ''url_verification'')),
                        (str ''challenge'', JString (str ''abc123''))]"
      "str ''abc123''" "\<lparr>sheet = [], logger = []\<rparr>"]
  by (simp add: handler_eval)

lemma mention_appends:
  assumes "parse_body en e = Inr data"
    and "get data (str ''type'') = Inr ty" and "ty \<noteq> JString (str ''url_verification'')"
    and "is_app_mention data = Inr True"
    and "get data (str ''event'') = Inr ev"
    and "get ev (str ''text'') = Inr (JString text)"
    and "get ev (str ''channel'') = Inr channel"
    and "get ev (str ''ts'') = Inr (JString ts)"
    and "generateSlackLink en channel (JString ts) = Inr permalink"
    and "activeSheet en" and "toISOString en ts = Some timestampUtcIso"
    and "appendRow_accepts en (sheet w)
           [JString timestampUtcIso,
            index (split2 44 32 [] (toLocaleString_Jakarta en ts)) 0,
            index (split2 44 32 [] (toLocaleString_Jakarta en ts)) 1,
            JString (extractSourceBank text), JString (extractBeneficiaryBank text),
            JString (extractTotal text), JString (extractFFB text),
            JString (extractNotes text), JString permalink]"
  shows "sheet (snd (doPost en e w)) = sheet w @
           [[JString timestampUtcIso,
             index (split2 44 32 [] (toLocaleString_Jakarta en ts)) 0,
             index (split2 44 32 [] (toLocaleString_Jakarta en ts)) 1,
             JString (extractSourceBank text), JString (extractBeneficiaryBank text),
             JString (extractTotal text), JString (extractFFB text),
             JString (extractNotes text), JString permalink]]"
  using assms
  by (simp add: doPost_def try_body_def handle_mention_def js_defs appendRow_def
      call_extractor_def Let_def)

lemma handle_mention_sheet:
  "handle_mention en ev w = (res, w') \<Longrightarrow> sheet w' \<noteq> sheet w \<Longrightarrow>
   \<exists>iso dt text permalink. sheet w' = sheet w @
      [[JString iso, index dt 0, index dt 1,
        JString (extractSourceBank text), JString (extractBeneficiaryBank text),
        JString (extractTotal text), JString (extractFFB text),
        JString (extractNotes text), JString permalink]]"
  unfolding handle_mention_def js_defs appendRow_def call_extractor_def Let_def
  by (auto split: sum.splits prod.splits if_splits option.splits jsvalue.splits) blast

lemma try_body_sheet_rel:
  assumes hm: "\<And>ev w1 res1 w2. handle_mention en ev w1 = (res1, w2) \<Longrightarrow>
                 sheet w2 \<noteq> sheet w1 \<Longrightarrow> Q (sheet w1) (sheet w2)"
    and "try_body en e w = (res, w')" and "sheet w' \<noteq> sheet w"
  shows "Q (sheet w) (sheet w')"
  using assms(2,3) unfolding try_body_def js_defs
  by (auto split: sum.splits prod.splits if_splits option.splits dest: hm)

lemma try_body_sheet:
  assumes "try_body en e w = (res, w')" and "sheet w' \<noteq> sheet w"
  shows "\<exists>iso dt text permalink. sheet w' = sheet w @
      [[JString iso, index dt 0, index dt 1,
        JString (extractSourceBank text), JString (extractBeneficiaryBank text),
        JString (extractTotal text), JString (extractFFB text),
        JString (extractNotes text), JString permalink]]"
  by (rule try_body_sheet_rel[where Q = "\<lambda>s s'. \<exists>iso dt text permalink. s' = s @
      [[JString iso, index dt 0, index dt 1,
        JString (extractSourceBank text), JString (extractBeneficiaryBank text),
        JString (extractTotal text), JString (extractFFB text),
        JString (extractNotes text), JString permalink]]", OF _ assms])
     (rule handle_mention_sheet)

lemma doPost_sheet:
  assumes "sheet (snd (doPost en e w)) \<noteq> sheet w"
  shows "\<exists>iso dt text permalink. sheet (snd (doPost en e w)) = sheet w @
      [[JString iso, index dt 0, index dt 1,
        JString (extractSourceBank text), JString (extractBeneficiaryBank text),
        JString (extractTotal text), JString (extractFFB text),
        JString (extractNotes text), JString permalink]]"
proof -
  obtain res w' where t: "try_body en e w = (res, w')" by (cases "try_body en e w")
  have s: "sheet (snd (doPost en e w)) = sheet w'"
    using t by (auto simp: doPost_def split: sum.splits option.splits)
  then have "sheet w' \<noteq> sheet w" using assms by simp
  from try_body_sheet[OF t this] show ?thesis unfolding s .
qed

text \<open>
  C7: a mention event whose fields are read without an error, with a valid date and an
  accepted append, adds exactly the row \<open>[timestampUtcIso, dateLocal, timeLocal,
  sourceBank, beneficiaryBank, total, ffbQuantity, notes, permalink]\<close>, whatever the
  extractors return; and whenever \<open>doPost\<close> changes the sheet, it has added one row of
  these nine columns.
\<close>

theorem appended_row_has_nine_columns:
  "(parse_body en e = Inr data
      \<and> get data (str ''type'') = Inr ty \<and> ty \<noteq> JString (str ''url_verification'')
      \<and> is_app_mention data = Inr True
      \<and> get data (str ''event'') = Inr ev
      \<and> get ev (str ''text'') = Inr (JString text)
      \<and> get ev (str ''channel'') = Inr channel
      \<and> get ev (str ''ts'') = Inr (JString ts)
      \<and> generateSlackLink en channel (JString ts) = Inr permalink
      \<and> activeSheet en \<and> toISOString en ts = Some timestampUtcIso
      \<and> appendRow_accepts en (sheet w)
           [JString timestampUtcIso,
            index (split2 44 32 [] (toLocaleString_Jakarta en ts)) 0,
            index (split2 44 32 [] (toLocaleString_Jakarta en ts)) 1,
            JString (extractSourceBank text), JString (extractBeneficiaryBank text),
            JString (extractTotal text), JString (extractFFB text),
            JString (extractNotes text), JString permalink]
    \<longrightarrow> sheet (snd (doPost en e w)) = sheet w @
           [[JString timestampUtcIso,
             index (split2 44 32 [] (toLocaleString_Jakarta en ts)) 0,
             index (split2 44 32 [] (toLocaleString_Jakarta en ts)) 1,
             JString (extractSourceBank text), JString (extractBeneficiaryBank text),
             JString (extractTotal text), JString (extractFFB text),
             JString (extractNotes text), JString permalink]])
   \<and> (sheet (snd (doPost en e' w')) \<noteq> sheet w' \<longrightarrow>
        (\<exists>row. sheet (snd (doPost en e' w')) = sheet w' @ [row] \<and> length row = 9
           \<and> (\<exists>iso dt msg link. row =
                [JString iso, index dt 0, index dt 1,
                 JString (extractSourceBank msg), JString (extractBeneficiaryBank msg),
                 JString (extractTotal msg), JString (extractFFB msg),
                 JString (extractNotes msg), JString link])))"
proof (intro conjI impI; (elim conjE)?)
  assume "parse_body en e = Inr data" "get data (str ''type'') = Inr ty"
    "ty \<noteq> JString (str ''url_verification'')" "is_app_mention data = Inr True"
    "get data (str ''event'') = Inr ev" "get ev (str ''text'') = Inr (JString text)"
    "get ev (str ''channel'') = Inr channel" "get ev (str ''ts'') = Inr (JString ts)"
    "generateSlackLink en channel (JString ts) = Inr permalink"
    "activeSheet en" "toISOString en ts = Some timestampUtcIso"
    "appendRow_accepts en (sheet w)
           [JString timestampUtcIso,
            index (split2 44 32 [] (toLocaleString_Jakarta en ts)) 0,
            index (split2 44 32 [] (toLocaleString_Jakarta en ts)) 1,
            JString (extractSourceBank text), JString (extractBeneficiaryBank text),
            JString (extractTotal text), JString (extractFFB text),
            JString (extractNotes text), JString permalink]"
  then show "sheet (snd (doPost en e w)) = sheet w @
           [[JString timestampUtcIso,
             index (split2 44 32 [] (toLocaleString_Jakarta en ts)) 0,
             index (split2 44 32 [] (toLocaleString_Jakarta en ts)) 1,
             JString (extractSourceBank text), JString (extractBeneficiaryBank text),
             JString (extractTotal text), JString (extractFFB text),
             JString (extractNotes text), JString permalink]]"
    by (rule mention_appends)
next
  assume "sheet (snd (doPost en e' w')) \<noteq> sheet w'"
  from doPost_sheet[OF this] obtain iso dt msg link where
    "sheet (snd (doPost en e' w')) = sheet w' @
      [[JString iso, index dt 0, index dt 1,
        JString (extractSourceBank msg), JString (extractBeneficiaryBank msg),
        JString (extractTotal msg), JString (extractFFB msg),
        JString (extractNotes msg), JString link]]" by blast
  then show "\<exists>row. sheet (snd (doPost en e' w')) = sheet w' @ [row] \<and> length row = 9
           \<and> (\<exists>iso dt msg link. row =
                [JString iso, index dt 0, index dt 1,
                 JString (extractSourceBank msg), JString (extractBeneficiaryBank msg),
                 JString (extractTotal msg), JString (extractFFB msg),
                 JString (extractNotes msg), JString link])"
    by (intro exI conjI) (assumption, simp, rule refl)
qed

theorem appended_row_has_nine_columns_witness:
  "sheet (snd (doPost (example_env (parses_to mention_body mention_event) True) (request mention_body)
          \<lparr>sheet = [], logger = []\<rparr>))
    = [[JString (str ''2023-10-25T12:34:56.123Z''), JString (str ''10/25/2023''),
        JString (str ''7:34:56 PM''), JString (str ''BRI''), JString (str ''BCA''),
        JString (str ''9000''), JString (str ''5''), JString (str ''Insufficient balance''),
        JString (str ''https://your-slack-workspace.slack.com/archives/C1234567890/p1698237296123456'')]]"
proof -
  let ?en = "example_env (parses_to mention_body mention_event) True"
  let ?text = "str ''H2H BRI to BCA Total 9000 (5 ffb) notes Insufficient balance''"
  let ?ts = "str ''1698237296.123456''"
  have "sheet (snd (doPost ?en (request mention_body) \<lparr>sheet = [], logger = []\<rparr>))
     = sheet \<lparr>sheet = [], logger = []\<rparr> @
           [[JString (str ''2023-10-25T12:34:56.123Z''),
             index (split2 44 32 [] (toLocaleString_Jakarta ?en ?ts)) 0,
             index (split2 44 32 [] (toLocaleString_Jakarta ?en ?ts)) 1,
             JString (extractSourceBank ?text), JString (extractBeneficiaryBank ?text),
             JString (extractTotal ?text), JString (extractFFB ?text),
             JString (extractNotes ?text),
             JString (str ''https://your-slack-workspace.slack.com/archives/C1234567890/p1698237296123456'')]]"
    by (rule appended_row_has_nine_columns[where data = mention_event and ty = JUndefined
          and ev = "JObject
            [(str ''type'', JString (str ''app_mention'')),
             (str ''text'', JString (str ''H2H BRI to BCA Total 9000 (5 ffb) notes Insufficient balance'')),
             (str ''channel'', JString (str ''C1234567890'')),
             (str ''ts'', JString (str ''1698237296.123456''))]"
          and channel = "JString (str ''C1234567890'')", THEN conjunct1, THEN mp])
       (simp add: handler_eval mention_event_def is_app_mention_def generateSlackLink_def
          workspaceUrl_def)
  moreover have "extractSourceBank ?text = str ''BRI''" "extractBeneficiaryBank ?text = str ''BCA''"
    "extractTotal ?text = str ''9000''" "extractFFB ?text = str ''5''"
    "extractNotes ?text = str ''Insufficient balance''"
    by (simp_all add: extract_eval)
  ultimately show ?thesis
    by (simp add: example_env_def index_def str_def)
qed

end
